theory Spec2Isabelle
  imports Complex_Main "HOL-Library.Word"
begin

section \<open>mouse-tool (main.c): a shallow embedding\<close>

text \<open>
  The embedding follows \<^verbatim>\<open>src/main.c\<close> function by function: the decoder
  (\<^verbatim>\<open>parse_sgr\<close>, \<^verbatim>\<open>read_sgr_event_timeout\<close>), click mode (\<^verbatim>\<open>wait_for_first_press\<close>,
  \<^verbatim>\<open>handle_click_mode\<close>), the printers and \<^verbatim>\<open>main\<close> from line 554 on.

  \<^item> C \<^verbatim>\<open>int\<close> and \<^verbatim>\<open>long\<close> values are HOL integers. A conversion to \<^verbatim>\<open>int\<close> and the
    arithmetic of the click radius wrap to 32 bits (\<open>c_int\<close>); \<^verbatim>\<open>long\<close> has 64 bits, the
    LP64 model. Signed overflow is undefined in C; the model wraps, as the usual compilers
    do. The counters \<^verbatim>\<open>outputs\<close> and \<^verbatim>\<open>count\<close> are not
    wrapped: they count events read.
  \<^item> C \<^verbatim>\<open>double\<close> values are the rationals they denote. The product that sizes the
    record buffer (line 570) is rounded as IEEE 754 binary64 arithmetic rounds it, to the
    nearest double with ties to even (\<open>round_double\<close>); its conversion to \<^verbatim>\<open>size_t\<close> is
    defined in C only below \<open>2^64\<close>. The other operations on doubles, the differences of
    clock readings and the split of a timeout into seconds and microseconds, are exact.
  \<^item> The terminal is a record \<open>tty\<close>: the monotonic clock in nanoseconds and the bytes still
    to arrive, each with the delay after which it becomes readable. Computation takes no
    time; a wait that times out takes its timeout and at least one nanosecond. The end of
    the list is the end of the source: \<^verbatim>\<open>read\<close> returning \<open>0\<close> or \<open>-1\<close>, which is also what a
    signal that sets \<^verbatim>\<open>got_sig\<close> leads to at every place the program tests the flag. A
    change of the window size, which only restarts a wait, is left out.
  \<^item> Output is a list of actions in the order in which the program performs them. The
    switches of the terminal mode, the output file and the colours of the playback are
    not part of it.
  \<^item> Not modelled: the options and their checks (lines 464--552), and
    \<^verbatim>\<open>wait_multiclick_followups\<close>, which nothing calls.
\<close>

subsection \<open>Constants and data (lines 33--53)\<close>

definition SGR_BUF :: nat where
  "SGR_BUF = 128"

definition MAX_EVENTS :: nat where
  "MAX_EVENTS = 65536"

definition MULTICLICK_MAX_GAP :: rat where
  "MULTICLICK_MAX_GAP = 1 / 2"

definition MULTICLICK_RADIUS :: int where
  "MULTICLICK_RADIUS = 3"

datatype evtype_t = EVT_PRESS | EVT_MOTION | EVT_RELEASE

record timespec =
  tv_sec :: int
  tv_nsec :: int

record event_t =
  ev_x :: int
  ev_y :: int
  ev_button :: int
  ev_type :: evtype_t
  ev_t :: timespec

record out_event_t =
  oe_ev :: event_t
  oe_dt :: rat

datatype out_mode_t = OUT_CSV | OUT_JSON | OUT_PRETTY | OUT_JSONL

subsection \<open>Machine integers\<close>

definition INT_MAX :: int where
  "INT_MAX = 2147483647"

definition LONG_MAX :: int where
  "LONG_MAX = 9223372036854775807"

definition LONG_MIN :: int where
  "LONG_MIN = - 9223372036854775808"

definition c_int :: "int \<Rightarrow> int" where
  \<comment> \<open>the value of a 32-bit two's complement \<^verbatim>\<open>int\<close> holding \<open>v\<close> modulo \<open>2^32\<close>\<close>
  "c_int v = (v + 2147483648) mod 4294967296 - 2147483648"

definition c_trunc :: "rat \<Rightarrow> int" where
  \<comment> \<open>a cast from \<^verbatim>\<open>double\<close> to an integer type: truncation towards zero\<close>
  "c_trunc r = (if r < 0 then - \<lfloor>- r\<rfloor> else \<lfloor>r\<rfloor>)"

subsection \<open>Doubles\<close>

text \<open>
  A finite double is a rational \<open>n * 2^e\<close> with \<open>\<bar>n\<bar> < 2^53\<close> and \<open>- 1074 \<le> e\<close>. The result
  of an arithmetic operation is the exact result rounded to the nearest such number, to
  the one with even \<open>n\<close> when two are equally near. Overflow to infinity, which starts
  near \<open>2^1024\<close>, is not modelled.
\<close>

definition pow2 :: "int \<Rightarrow> rat" where
  "pow2 k = (if 0 \<le> k then 2 ^ nat k else 1 / 2 ^ nat (- k))"

function bit_length :: "int \<Rightarrow> int" where
  \<comment> \<open>the number of binary digits of a positive integer\<close>
  "bit_length n = (if n \<le> 0 then 0 else bit_length (n div 2) + 1)"
  by pat_completeness auto
termination
  by (relation "measure nat") auto

declare bit_length.simps [simp del]

definition ilog2 :: "rat \<Rightarrow> int" where
  \<comment> \<open>the binary exponent of \<open>x > 0\<close>: the \<open>k\<close> with \<open>2^k \<le> x < 2^(k+1)\<close>\<close>
  "ilog2 x =
     (let (p, q) = quotient_of x;
          k = bit_length p - bit_length q
      in if pow2 k \<le> x then k else k - 1)"

definition round_even :: "rat \<Rightarrow> int" where
  \<comment> \<open>the nearest integer, the even one of two equally near\<close>
  "round_even m =
     (let f = \<lfloor>m\<rfloor>; r = m - of_int f
      in if r < 1 / 2 then f else if 1 / 2 < r then f + 1
         else if even f then f else f + 1)"

definition round_double :: "rat \<Rightarrow> rat" where
  \<comment> \<open>the double nearest to \<open>x\<close>: 53 significant bits, the last one worth \<open>2^e\<close>\<close>
  "round_double x =
     (if x = 0 then 0
      else let e = max (ilog2 \<bar>x\<bar> - 52) (- 1074)
           in (if x < 0 then - 1 else 1) * (of_int (round_even (\<bar>x\<bar> / pow2 e)) * pow2 e))"

definition dbl_mul :: "rat \<Rightarrow> rat \<Rightarrow> rat" where
  \<comment> \<open>\<^verbatim>\<open>a * b\<close> on doubles. The operands are doubles, which rounding leaves as they are; a
      number that is not a double stands for the double nearest to it, the one that
      \<^verbatim>\<open>strtod\<close> reads from its decimal text.\<close>
  "dbl_mul a b = round_double (round_double a * round_double b)"

subsection \<open>The C library on strings\<close>

definition ESC :: char where
  "ESC = CHR 0x1B"

definition CR :: char where
  "CR = CHR 0x0D"

definition LF :: char where
  "LF = CHR 0x0A"

definition NUL :: char where
  "NUL = CHR 0x00"

definition isspace :: "char \<Rightarrow> bool" where
  \<comment> \<open>the C locale: space, \<^verbatim>\<open>\t \n \v \f \r\<close>\<close>
  "isspace c \<longleftrightarrow> c = CHR 0x20 \<or> (9 \<le> (of_char c :: nat) \<and> (of_char c :: nat) \<le> 13)"

definition isdigit :: "char \<Rightarrow> bool" where
  "isdigit c \<longleftrightarrow> 48 \<le> (of_char c :: nat) \<and> (of_char c :: nat) \<le> 57"

definition digit_of :: "char \<Rightarrow> int" where
  "digit_of c = int (of_char c) - 48"

fun dec_value :: "int \<Rightarrow> char list \<Rightarrow> int" where
  "dec_value acc [] = acc"
| "dec_value acc (c # cs) = dec_value (10 * acc + digit_of c) cs"

definition cstr :: "char list \<Rightarrow> char list" where
  \<comment> \<open>the C string that starts a byte array: the bytes before the first NUL\<close>
  "cstr bs = takeWhile (\<lambda>c. c \<noteq> NUL) bs"

definition strchr_cut :: "char list \<Rightarrow> char \<Rightarrow> (char list \<times> char list) option" where
  \<comment> \<open>\<^verbatim>\<open>q = strchr(s, c); if (!q) return 0; *q++ = '\0';\<close> gives the string before the
      first \<open>c\<close> and the string after it\<close>
  "strchr_cut s c =
     (if c \<in> set s then Some (takeWhile (\<lambda>b. b \<noteq> c) s, tl (dropWhile (\<lambda>b. b \<noteq> c) s))
      else None)"

definition strtol :: "char list \<Rightarrow> int \<times> nat \<times> bool" where
  \<comment> \<open>\<^verbatim>\<open>strtol(s, &end, 10)\<close>: the value, the number of bytes up to \<^verbatim>\<open>end\<close> (\<open>0\<close> when
      nothing was converted) and whether \<^verbatim>\<open>errno\<close> was set to \<^verbatim>\<open>ERANGE\<close>\<close>
  "strtol s =
     (let sp = takeWhile isspace s;
          r = dropWhile isspace s;
          neg = (r \<noteq> [] \<and> hd r = CHR ''-'');
          sgn = (r \<noteq> [] \<and> (hd r = CHR ''-'' \<or> hd r = CHR ''+''));
          r1 = (if sgn then tl r else r);
          ds = takeWhile isdigit r1;
          n = length sp + (if sgn then 1 else 0) + length ds;
          v = (if neg then - dec_value 0 ds else dec_value 0 ds)
      in if ds = [] then (0, 0, False)
         else if LONG_MAX < v then (LONG_MAX, n, True)
         else if v < LONG_MIN then (LONG_MIN, n, True)
         else (v, n, False))"

subsection \<open>\<^verbatim>\<open>parse_sgr\<close> (lines 140--156)\<close>

definition parse_sgr :: "char list \<Rightarrow> (int \<times> int \<times> int \<times> char) option" where
  \<comment> \<open>\<open>buf\<close> holds the \<^verbatim>\<open>len\<close> bytes of the C buffer; \<open>Some (cb, cx, cy, termch)\<close> is the
      return value \<open>1\<close> with the four results, \<open>None\<close> the return value \<open>0\<close>\<close>
  "parse_sgr buf =
     (if length buf < 4 \<or> buf ! 0 \<noteq> CHR ''<'' \<or> SGR_BUF \<le> length buf then None
      else
        let tmp = cstr (take (length buf - 2) (drop 1 buf)) in
        case strchr_cut tmp (CHR '';'') of
          None \<Rightarrow> None
        | Some (p, s1') \<Rightarrow>
            (case strchr_cut s1' (CHR '';'') of
               None \<Rightarrow> None
             | Some (s1, s2) \<Rightarrow>
                 let (vcb, n1, e1) = strtol p;
                     errno1 = e1
                 in if errno1 \<or> n1 = 0 then None
                    else
                      let (vcx, n2, e2) = strtol s1;
                          errno2 = (errno1 \<or> e2)
                      in if errno2 \<or> n2 = 0 then None
                         else
                           let (vcy, n3, e3) = strtol s2;
                               errno3 = (errno2 \<or> e3)
                           in if errno3 \<or> n3 = 0 then None
                              else Some (c_int vcb, c_int vcx, c_int vcy, buf ! (length buf - 1))))"

subsection \<open>The terminal: \<^verbatim>\<open>select\<close>, \<^verbatim>\<open>read\<close> and the monotonic clock\<close>

record tty =
  clock :: nat
  pending :: "(nat \<times> char) list"

definition clock_gettime :: "tty \<Rightarrow> timespec" where
  "clock_gettime s =
     \<lparr>tv_sec = int (clock s div 1000000000), tv_nsec = int (clock s mod 1000000000)\<rparr>"

definition read_byte :: "tty \<Rightarrow> (char \<times> tty) option" where
  \<comment> \<open>\<^verbatim>\<open>read(ttyfd, &c, 1)\<close>, blocking; \<open>None\<close> is a return value \<open>\<le> 0\<close>\<close>
  "read_byte s =
     (case pending s of
        [] \<Rightarrow> None
      | (d, c) # r \<Rightarrow> Some (c, \<lparr>clock = clock s + d, pending = r\<rparr>))"

definition timeval_of :: "rat \<Rightarrow> (int \<times> int) option" where
  \<comment> \<open>lines 167, 168, 172 and 173: \<open>None\<close> is the null timeout of a blocking \<^verbatim>\<open>select\<close>\<close>
  "timeval_of timeout_sec =
     (let sec = c_trunc timeout_sec;
          usec = c_trunc ((timeout_sec - of_int sec) * 1000000)
      in if timeout_sec < 0 then None else Some (sec, usec))"

definition timeval_ns :: "int \<times> int \<Rightarrow> nat" where
  "timeval_ns tv = nat (fst tv * 1000000000 + snd tv * 1000)"

definition select_tty :: "(int \<times> int) option \<Rightarrow> tty \<Rightarrow> bool \<times> tty" where
  \<comment> \<open>\<^verbatim>\<open>select\<close> on the terminal: \<open>True\<close> when it is readable (the end of the source is
      readable at once), \<open>False\<close> when the timeout expired first. A timeout that expires
      lets at least one nanosecond pass.\<close>
  "select_tty tv s =
     (case pending s of
        [] \<Rightarrow> (True, s)
      | (d, c) # r \<Rightarrow>
          (case tv of
             None \<Rightarrow> (True, \<lparr>clock = clock s + d, pending = (0, c) # r\<rparr>)
           | Some v \<Rightarrow>
               if d \<le> timeval_ns v
               then (True, \<lparr>clock = clock s + d, pending = (0, c) # r\<rparr>)
               else (False, \<lparr>clock = clock s + max (timeval_ns v) 1,
                             pending = (d - max (timeval_ns v) 1, c) # r\<rparr>)))"

subsection \<open>\<^verbatim>\<open>read_sgr_event_timeout\<close> (lines 164--199)\<close>

datatype rd = Event event_t | Timeout | Terminated | EnterKey

function read_body :: "char list \<Rightarrow> tty \<Rightarrow> char list option \<times> tty" where
  \<comment> \<open>the loop of lines 186--190 on the buffer read so far; \<open>None\<close> is its \<^verbatim>\<open>return -1\<close>\<close>
  "read_body buf s =
     (if length buf + 1 < SGR_BUF then
        (case read_byte s of
           None \<Rightarrow> (None, s)
         | Some (c, s') \<Rightarrow>
             if c = CHR ''M'' \<or> c = CHR ''m'' then (Some (buf @ [c]), s')
             else read_body (buf @ [c]) s')
      else (Some buf, s))"
  by pat_completeness auto
termination
  by (relation "measure (\<lambda>(buf, s). SGR_BUF - length buf)") auto

declare read_body.simps [simp del]

lemma select_tty_progress:
  "select_tty tv s = (b, s0) \<Longrightarrow>
     length (pending s0) = length (pending s) \<and> clock s \<le> clock s0 \<and>
     (\<not> b \<longrightarrow> clock s < clock s0 \<and> tv \<noteq> None)"
  by (auto simp: select_tty_def split: list.splits option.splits if_splits)

lemma read_byte_progress:
  "read_byte s = Some (c, s') \<Longrightarrow>
     length (pending s') < length (pending s) \<and> clock s \<le> clock s'"
  by (auto simp: read_byte_def split: list.splits)

lemma read_body_progress:
  "read_body buf s = (r, s') \<Longrightarrow>
     length (pending s') \<le> length (pending s) \<and> clock s \<le> clock s'"
proof (induction buf s rule: read_body.induct)
  case (1 buf s)
  show ?case
  proof (cases "length buf + 1 < SGR_BUF")
    case False
    with "1.prems" show ?thesis by (simp add: read_body.simps [of buf])
  next
    case True
    show ?thesis
    proof (cases "read_byte s")
      case None
      with True "1.prems" show ?thesis by (simp add: read_body.simps [of buf])
    next
      case (Some a)
      obtain c s1 where a: "a = (c, s1)" by (cases a)
      note p = read_byte_progress [OF Some [unfolded a]]
      show ?thesis
      proof (cases "c = CHR ''M'' \<or> c = CHR ''m''")
        case True
        with \<open>length buf + 1 < SGR_BUF\<close> Some a "1.prems" p show ?thesis
          by (auto simp: read_body.simps [of buf])
      next
        case False
        with \<open>length buf + 1 < SGR_BUF\<close> Some a "1.prems"
        have "read_body (buf @ [c]) s1 = (r, s')" by (simp add: read_body.simps [of buf])
        with "1.IH" [OF \<open>length buf + 1 < SGR_BUF\<close> Some a [symmetric]] False p
        show ?thesis by simp
      qed
    qed
  qed
qed

function read_sgr_event_timeout :: "rat \<Rightarrow> bool \<Rightarrow> tty \<Rightarrow> rd \<times> tty" where
  "read_sgr_event_timeout timeout_sec want_motion s =
     (case select_tty (timeval_of timeout_sec) s of
        (False, s0) \<Rightarrow> (Timeout, s0)
      | (True, s0) \<Rightarrow>
          (case read_byte s0 of
             None \<Rightarrow> (Terminated, s0)
           | Some (c, s1) \<Rightarrow>
               if c = CR \<or> c = LF then (EnterKey, s1)
               else if c \<noteq> ESC then read_sgr_event_timeout timeout_sec want_motion s1
               else
                 (case read_byte s1 of
                    None \<Rightarrow> (Terminated, s1)
                  | Some (c2, s2) \<Rightarrow>
                      if c2 \<noteq> CHR ''[''
                      then read_sgr_event_timeout timeout_sec want_motion s2
                      else
                        (case read_byte s2 of
                           None \<Rightarrow> (Terminated, s2)
                         | Some (c3, s3) \<Rightarrow>
                             if c3 \<noteq> CHR ''<''
                             then read_sgr_event_timeout timeout_sec want_motion s3
                             else
                               (case read_body [CHR ''<''] s3 of
                                  (None, s4) \<Rightarrow> (Terminated, s4)
                                | (Some buf, s4) \<Rightarrow>
                                    (case parse_sgr buf of
                                       None \<Rightarrow>
                                         read_sgr_event_timeout timeout_sec want_motion s4
                                     | Some (cb, x, y, termch) \<Rightarrow>
                                         (Event \<lparr>ev_x = x, ev_y = y, ev_button = cb,
                                            ev_type =
                                              (if termch = CHR ''M''
                                               then (if cb < 32 then EVT_PRESS else EVT_MOTION)
                                               else EVT_RELEASE),
                                            ev_t = clock_gettime s4\<rparr>, s4)))))))"
  by pat_completeness auto
termination
proof (relation "measure (\<lambda>(timeout_sec, want_motion, s). length (pending s))", goal_cases)
  case 1
  show ?case by simp
next
  case (2 timeout_sec want_motion s x1 s0 a c s1)
  then show ?case
    using select_tty_progress [of "timeval_of timeout_sec" s x1 s0] read_byte_progress [of s0 c s1]
    by simp
next
  case (3 timeout_sec want_motion s x1 s0 a c s1 a2 c2 s2)
  then show ?case
    using select_tty_progress [of "timeval_of timeout_sec" s x1 s0] read_byte_progress [of s0 c s1]
      read_byte_progress [of s1 c2 s2]
    by simp
next
  case (4 timeout_sec want_motion s x1 s0 a c s1 a2 c2 s2 a3 c3 s3)
  then show ?case
    using select_tty_progress [of "timeval_of timeout_sec" s x1 s0] read_byte_progress [of s0 c s1]
      read_byte_progress [of s1 c2 s2] read_byte_progress [of s2 c3 s3]
    by simp
next
  case (5 timeout_sec want_motion s x1 s0 a c s1 a2 c2 s2 a3 c3 s3 x2 s4 buf)
  then show ?case
    using select_tty_progress [of "timeval_of timeout_sec" s x1 s0] read_byte_progress [of s0 c s1]
      read_byte_progress [of s1 c2 s2] read_byte_progress [of s2 c3 s3]
      read_body_progress [of "[CHR ''<'']" s3 x2 s4]
    by simp
qed

declare read_sgr_event_timeout.simps [simp del]

lemma reader_progress:
  "read_sgr_event_timeout t w s = (r, s') \<Longrightarrow>
     length (pending s') \<le> length (pending s) \<and> clock s \<le> clock s' \<and>
     (r \<noteq> Timeout \<and> r \<noteq> Terminated \<longrightarrow> length (pending s') < length (pending s)) \<and>
     (r = Timeout \<longrightarrow> clock s < clock s' \<and> 0 \<le> t)"
proof (induction t w s rule: read_sgr_event_timeout.induct)
  case (1 t w s)
  obtain b s0 where sel: "select_tty (timeval_of t) s = (b, s0)" by (cases "select_tty (timeval_of t) s")
  note p0 = select_tty_progress [OF sel]
  show ?case
  proof (cases b)
    case False
    then have "r = Timeout" "s' = s0" using "1.prems" sel
      by (simp_all add: read_sgr_event_timeout.simps [of t w s])
    moreover have "0 \<le> t" using p0 False by (auto simp: timeval_of_def Let_def split: if_splits)
    ultimately show ?thesis using p0 False by simp
  next
    case True
    then have bT: "b = True" by simp
    show ?thesis
    proof (cases "read_byte s0")
      case None
      then show ?thesis using "1.prems" sel True p0
        by (simp add: read_sgr_event_timeout.simps [of t w s])
    next
      case (Some a1)
      obtain c s1 where a1: "a1 = (c, s1)" by (cases a1)
      note rb1 = Some [unfolded a1]
      note p1 = read_byte_progress [OF rb1]
      consider (enter) "c = CR \<or> c = LF" | (junk) "\<not> (c = CR \<or> c = LF)" "c \<noteq> ESC"
        | (esc) "\<not> (c = CR \<or> c = LF)" "c = ESC" by blast
      then show ?thesis
      proof cases
        case enter
        then show ?thesis using "1.prems" sel True rb1 p0 p1
          by (auto simp: read_sgr_event_timeout.simps [of t w s])
      next
        case junk
        then have "read_sgr_event_timeout t w s1 = (r, s')"
          using "1.prems" sel True rb1 by (simp add: read_sgr_event_timeout.simps [of t w s])
        from "1.IH"(1) [OF sel [symmetric] bT rb1 refl junk(1) junk(2) this]
        show ?thesis using p0 p1 by auto
      next
        case esc
        show ?thesis
        proof (cases "read_byte s1")
          case None
          then show ?thesis using "1.prems" sel True rb1 esc p0 p1
            by (auto simp: read_sgr_event_timeout.simps [of t w s])
        next
          case (Some a2)
          obtain c2 s2 where a2: "a2 = (c2, s2)" by (cases a2)
          note rb2 = Some [unfolded a2]
          note p2 = read_byte_progress [OF rb2]
          show ?thesis
          proof (cases "c2 \<noteq> CHR ''[''")
            case True
            then have "read_sgr_event_timeout t w s2 = (r, s')"
              using "1.prems" sel \<open>b\<close> rb1 rb2 esc
              by (simp add: read_sgr_event_timeout.simps [of t w s])
            from "1.IH"(2) [OF sel [symmetric] bT rb1 refl esc(1) _ rb2 refl True this] esc(2)
            show ?thesis using p0 p1 p2 by auto
          next
            case c2: False
            show ?thesis
            proof (cases "read_byte s2")
              case None
              then show ?thesis using "1.prems" sel True rb1 rb2 esc c2 p0 p1 p2
                by (auto simp: read_sgr_event_timeout.simps [of t w s])
            next
              case (Some a3)
              obtain c3 s3 where a3: "a3 = (c3, s3)" by (cases a3)
              note rb3 = Some [unfolded a3]
              note p3 = read_byte_progress [OF rb3]
              show ?thesis
              proof (cases "c3 \<noteq> CHR ''<''")
                case True
                then have "read_sgr_event_timeout t w s3 = (r, s')"
                  using "1.prems" sel \<open>b\<close> rb1 rb2 rb3 esc c2
                  by (simp add: read_sgr_event_timeout.simps [of t w s])
                from "1.IH"(3) [OF sel [symmetric] bT rb1 refl esc(1) _ rb2 refl c2 rb3 refl True this] esc(2)
                show ?thesis using p0 p1 p2 p3 by auto
              next
                case c3: False
                obtain ob s4 where bd: "read_body [CHR ''<''] s3 = (ob, s4)"
                  by (cases "read_body [CHR ''<''] s3")
                note p4 = read_body_progress [OF bd]
                show ?thesis
                proof (cases ob)
                  case None
                  then show ?thesis using "1.prems" sel \<open>b\<close> rb1 rb2 rb3 esc c2 c3 bd p0 p1 p2 p3 p4
                    by (auto simp: read_sgr_event_timeout.simps [of t w s])
                next
                  case (Some buf)
                  show ?thesis
                  proof (cases "parse_sgr buf")
                    case None
                    then have "read_sgr_event_timeout t w s4 = (r, s')"
                      using "1.prems" sel \<open>b\<close> rb1 rb2 rb3 esc c2 c3 bd Some
                      by (simp add: read_sgr_event_timeout.simps [of t w s])
                    from "1.IH"(4) [OF sel [symmetric] bT rb1 refl esc(1) _ rb2 refl c2 rb3 refl c3
                        bd [symmetric] Some None this] esc(2)
                    show ?thesis using p0 p1 p2 p3 p4 by auto
                  next
                    case (Some q)
                    obtain cb x y termch where q: "q = (cb, x, y, termch)" by (cases q)
                    show ?thesis
                      using "1.prems" sel \<open>b\<close> rb1 rb2 rb3 esc c2 c3 bd \<open>ob = Some buf\<close> Some q
                        p0 p1 p2 p3 p4
                      by (auto simp: read_sgr_event_timeout.simps [of t w s])
                  qed
                qed
              qed
            qed
          qed
        qed
      qed
    qed
  qed
qed

subsection \<open>Output: marks, lines and JSON documents (lines 202--210, 268--333)\<close>

text \<open>
  What the program writes is kept as data: a mark on the terminal, a CSV line, one JSON
  object per line, or the JSON document with its metadata. The compact and the pretty
  document carry the same fields and differ in \<open>jd_pretty\<close>, which stands for the layout.
\<close>

record json_event =
  je_x :: int
  je_y :: int
  je_button :: int
  je_type :: string
  je_dt :: rat

record json_doc =
  jd_pretty :: bool
  jd_mode :: string
  jd_started_at :: string
  jd_duration :: rat
  jd_outputs :: nat
  jd_events :: "json_event list"

datatype action =
    DrawMark int int
  | CsvLine int int int
  | JsonLine json_event
  | JsonDoc json_doc
  | ErrorMsg int string
  | Playback "event_t list"

definition draw_mark :: "int \<Rightarrow> int \<Rightarrow> action" where
  "draw_mark x y = DrawMark x y"

definition type_str :: "evtype_t \<Rightarrow> string" where
  "type_str t =
     (if t = EVT_PRESS then ''press'' else if t = EVT_RELEASE then ''release'' else ''motion'')"

definition ts_double :: "timespec \<Rightarrow> rat" where
  \<comment> \<open>\<^verbatim>\<open>t.tv_sec + t.tv_nsec*1e-9\<close>\<close>
  "ts_double t = of_int (tv_sec t) + of_int (tv_nsec t) * (1 / 1000000000)"

definition json_of :: "event_t \<Rightarrow> rat \<Rightarrow> json_event" where
  \<comment> \<open>the object printed by the format \<^verbatim>\<open>{"x":%d,"y":%d,"button":%d,"type":"%s","dt":%.6f}\<close>\<close>
  "json_of e dt =
     \<lparr>je_x = ev_x e, je_y = ev_y e, je_button = ev_button e,
      je_type = type_str (ev_type e), je_dt = dt\<rparr>"

definition print_json_history ::
    "out_event_t list \<Rightarrow> bool \<Rightarrow> string \<Rightarrow> string \<Rightarrow> rat \<Rightarrow> action" where
  "print_json_history outs pretty mode started_at duration =
     (let press_count =
            fold (\<lambda>oe n. if ev_type (oe_ev oe) = EVT_PRESS then n + 1 else n) outs 0
      in if \<not> pretty then
           JsonDoc \<lparr>jd_pretty = False, jd_mode = mode, jd_started_at = started_at,
             jd_duration = duration, jd_outputs = press_count,
             jd_events = map (\<lambda>oe. json_of (oe_ev oe) (oe_dt oe)) outs\<rparr>
         else
           JsonDoc \<lparr>jd_pretty = True, jd_mode = mode, jd_started_at = started_at,
             jd_duration = duration, jd_outputs = press_count,
             jd_events = map (\<lambda>oe. json_of (oe_ev oe) (oe_dt oe)) outs\<rparr>)"

fun events_with_dt :: "event_t option \<Rightarrow> event_t list \<Rightarrow> json_event list" where
  \<comment> \<open>the loops of lines 306--311 and 315--321; the first argument is \<^verbatim>\<open>events[i-1]\<close>\<close>
  "events_with_dt prev [] = []"
| "events_with_dt prev (e # es) =
     json_of e (case prev of None \<Rightarrow> 0 | Some p \<Rightarrow> ts_double (ev_t e) - ts_double (ev_t p))
       # events_with_dt (Some e) es"

definition print_json_from_events ::
    "event_t list \<Rightarrow> bool \<Rightarrow> string \<Rightarrow> string \<Rightarrow> rat \<Rightarrow> action" where
  "print_json_from_events events pretty mode started_at duration =
     (let press_count = fold (\<lambda>e n. if ev_type e = EVT_PRESS then n + 1 else n) events 0
      in if \<not> pretty then
           JsonDoc \<lparr>jd_pretty = False, jd_mode = mode, jd_started_at = started_at,
             jd_duration = duration, jd_outputs = press_count,
             jd_events = events_with_dt None events\<rparr>
         else
           JsonDoc \<lparr>jd_pretty = True, jd_mode = mode, jd_started_at = started_at,
             jd_duration = duration, jd_outputs = press_count,
             jd_events = events_with_dt None events\<rparr>)"

definition print_json_line :: "event_t \<Rightarrow> rat \<Rightarrow> action" where
  "print_json_line e dt = JsonLine (json_of e dt)"

subsection \<open>Click mode (lines 339--429)\<close>

text \<open>
  Each function that reads events also returns the history of its calls of
  \<^verbatim>\<open>read_sgr_event_timeout\<close>: the results, in order. The history is not a variable of the
  program and no branch depends on it; the statements below use it to speak about a run.
\<close>

function wait_for_first_press :: "tty \<Rightarrow> rd list \<Rightarrow> event_t option \<times> tty \<times> rd list" where
  \<comment> \<open>\<open>Some ev\<close> is the return value \<open>1\<close> with \<^verbatim>\<open>*ev\<close> filled, \<open>None\<close> the return value \<open>0\<close>\<close>
  "wait_for_first_press s tr =
     (case read_sgr_event_timeout (- 1) False s of
        (Event ev, s') \<Rightarrow>
          if ev_type ev = EVT_PRESS then (Some ev, s', tr @ [Event ev])
          else wait_for_first_press s' (tr @ [Event ev])
      | (EnterKey, s') \<Rightarrow> (None, s', tr @ [EnterKey])
      | (Terminated, s') \<Rightarrow> (None, s', tr @ [Terminated])
      | (Timeout, s') \<Rightarrow> wait_for_first_press s' (tr @ [Timeout]))"
  by pat_completeness auto
termination
proof (relation "measure (\<lambda>(s, tr). length (pending s))", goal_cases)
  case 1
  show ?case by simp
next
  case (2 s tr x1 s' ev)
  then show ?case using reader_progress [of "- 1" False s x1 s'] by simp
next
  case (3 s tr x1 s')
  then show ?case using reader_progress [of "- 1" False s x1 s'] by simp
qed

declare wait_for_first_press.simps [simp del]

definition near :: "event_t \<Rightarrow> event_t \<Rightarrow> bool" where
  \<comment> \<open>lines 393 and 394, in 32-bit \<^verbatim>\<open>int\<close> arithmetic\<close>
  "near first ev =
     (let dx = c_int (ev_x first - ev_x ev);
          dy = c_int (ev_y first - ev_y ev)
      in c_int (c_int (dx * dx) + c_int (dy * dy)) \<le> MULTICLICK_RADIUS * MULTICLICK_RADIUS)"

function click_followups ::
    "int \<Rightarrow> int \<Rightarrow> event_t \<Rightarrow> event_t \<Rightarrow> tty \<Rightarrow> rd list \<Rightarrow> event_t option \<times> tty \<times> rd list" where
  \<comment> \<open>the loop of lines 385--403 from the state \<open>count\<close>, \<open>first\<close>, \<open>last\<close>; \<open>Some last\<close> when
      control leaves it at line 404, \<open>None\<close> for each \<^verbatim>\<open>return 1\<close>\<close>
  "click_followups N count first last_e s tr =
     (if count < N then
        (case read_sgr_event_timeout MULTICLICK_MAX_GAP False s of
           (Timeout, s') \<Rightarrow> (None, s', tr @ [Timeout])
         | (Terminated, s') \<Rightarrow> (None, s', tr @ [Terminated])
         | (EnterKey, s') \<Rightarrow> (None, s', tr @ [EnterKey])
         | (Event ev, s') \<Rightarrow>
             if ev_type ev \<noteq> EVT_PRESS
             then click_followups N count first last_e s' (tr @ [Event ev])
             else if near first ev
             then click_followups N (count + 1) first ev s' (tr @ [Event ev])
             else (None, s', tr @ [Event ev]))
      else if count \<noteq> N then (None, s, tr)
      else (Some last_e, s, tr))"
  by pat_completeness auto
termination
proof (relation "measure (\<lambda>(N, count, first, last_e, s, tr). length (pending s))", goal_cases)
  case 1
  show ?case by simp
next
  case (2 N count first last_e s tr x1 s' ev)
  then show ?case using reader_progress [of MULTICLICK_MAX_GAP False s x1 s'] by simp
next
  case (3 N count first last_e s tr x1 s' ev)
  then show ?case using reader_progress [of MULTICLICK_MAX_GAP False s x1 s'] by simp
qed

declare click_followups.simps [simp del]

definition emit_click ::
    "out_mode_t \<Rightarrow> bool \<Rightarrow> string \<Rightarrow> event_t \<Rightarrow> action" where
  \<comment> \<open>lines 409--426; \<open>calloc_ok\<close> tells whether the \<^verbatim>\<open>calloc\<close> of line 412 succeeds\<close>
  "emit_click out_mode_local calloc_ok started_at last_e =
     (if out_mode_local = OUT_JSONL then print_json_line last_e 0
      else if out_mode_local = OUT_JSON \<or> out_mode_local = OUT_PRETTY then
        (if \<not> calloc_ok then CsvLine (ev_x last_e) (ev_y last_e) (ev_button last_e)
         else print_json_history [\<lparr>oe_ev = last_e, oe_dt = 0\<rparr>] (out_mode_local = OUT_PRETTY)
                ''click'' started_at 0)
      else CsvLine (ev_x last_e) (ev_y last_e) (ev_button last_e))"

definition handle_click_mode ::
    "int \<Rightarrow> out_mode_t \<Rightarrow> bool \<Rightarrow> string \<Rightarrow> bool \<Rightarrow> tty
      \<Rightarrow> int \<times> action list \<times> tty \<times> rd list" where
  \<comment> \<open>the return value, the output, the terminal afterwards and the history\<close>
  "handle_click_mode N out_mode_local do_mark_local started_at calloc_ok s =
     (case wait_for_first_press s [] of
        (None, s1, tr1) \<Rightarrow> (1, [], s1, tr1)
      | (Some first, s1, tr1) \<Rightarrow>
          (case (if 1 < N then click_followups N 1 first first s1 tr1
                 else (Some first, s1, tr1)) of
             (None, s2, tr2) \<Rightarrow> (1, [], s2, tr2)
           | (Some last_e, s2, tr2) \<Rightarrow>
               (0,
                (if do_mark_local then [draw_mark (ev_x last_e) (ev_y last_e)] else []) @
                  [emit_click out_mode_local calloc_ok started_at last_e],
                s2, tr2)))"

subsection \<open>\<^verbatim>\<open>main\<close> after the options (lines 554--719)\<close>

text \<open>
  The options are a record, as the loop of lines 493--508 leaves them. The environment of
  a run is the terminal, the wall-clock string \<^verbatim>\<open>started_at\<close> and \<open>alloc_ok\<close>, which tells
  for a number of elements whether \<^verbatim>\<open>calloc\<close> or \<^verbatim>\<open>realloc\<close> succeeds. The state of the loop
  holds the variables that the loop changes, the output so far and the history of the
  reader's results.
\<close>

record config =
  cfg_infinite :: bool
  cfg_count_limit :: int
  cfg_click_mode :: bool
  cfg_click_N :: int
  cfg_record_mode :: bool
  cfg_record_seconds :: rat
  cfg_out_mode :: out_mode_t
  cfg_do_mark :: bool

record mstate =
  m_tty :: tty
  m_events :: "event_t list"
  m_outs :: "out_event_t list"
  m_outs_cap :: nat
  m_outputs :: int
  m_last_emit_time :: timespec
  m_acts :: "action list"
  m_trace :: "rd list"

datatype stop = TimeUp | SourceEnded | EnterPressed | LimitReached | OutOfMemory

definition init_state :: "tty \<Rightarrow> mstate" where
  \<comment> \<open>lines 567--581\<close>
  "init_state s =
     \<lparr>m_tty = s, m_events = [], m_outs = [], m_outs_cap = 0, m_outputs = 0,
      m_last_emit_time = \<lparr>tv_sec = 0, tv_nsec = 0\<rparr>, m_acts = [], m_trace = []\<rparr>"

definition max_events_of :: "rat \<Rightarrow> nat" where
  \<comment> \<open>lines 570--572: the product is a double, \<^verbatim>\<open>est\<close> a 64-bit \<^verbatim>\<open>size_t\<close>\<close>
  "max_events_of record_seconds =
     (let est = (nat (c_trunc (dbl_mul record_seconds 1000)) + 1024) mod 2 ^ 64
      in if MAX_EVENTS < est then MAX_EVENTS else est)"

definition time_diff :: "timespec \<Rightarrow> timespec \<Rightarrow> rat" where
  \<comment> \<open>\<^verbatim>\<open>(a.tv_sec - b.tv_sec) + (a.tv_nsec - b.tv_nsec) * 1e-9\<close>\<close>
  "time_diff a b =
     of_int (tv_sec a - tv_sec b) + of_int (tv_nsec a - tv_nsec b) * (1 / 1000000000)"

definition finish_event :: "config \<Rightarrow> event_t \<Rightarrow> mstate \<Rightarrow> mstate + stop \<times> mstate" where
  \<comment> \<open>lines 658--670: \<open>Inl\<close> goes round the loop again, \<open>Inr\<close> is a \<^verbatim>\<open>break\<close>\<close>
  "finish_event cfg ev st =
     (let st' = (if ev_type ev = EVT_PRESS then st\<lparr>m_outputs := m_outputs st + 1\<rparr> else st)
      in if \<not> cfg_infinite cfg \<and> cfg_count_limit cfg = 0 \<and> 1 \<le> m_outputs st'
         then Inr (LimitReached, st')
         else if \<not> cfg_infinite cfg \<and> 0 < cfg_count_limit cfg \<and>
                 cfg_count_limit cfg \<le> m_outputs st'
         then Inr (LimitReached, st')
         else Inl st')"

definition emit_event ::
    "config \<Rightarrow> (nat \<Rightarrow> bool) \<Rightarrow> event_t \<Rightarrow> mstate \<Rightarrow> mstate + stop \<times> mstate" where
  \<comment> \<open>lines 620--656, for an event outside record mode: the mark, \<^verbatim>\<open>dt\<close> and the output of
      the event; \<open>Inr\<close> is the \<^verbatim>\<open>break\<close> of line 641\<close>
  "emit_event cfg alloc_ok ev st =
     (let st1 = (if cfg_do_mark cfg \<and> ev_type ev = EVT_PRESS
                 then st\<lparr>m_acts := m_acts st @ [draw_mark (ev_x ev) (ev_y ev)]\<rparr> else st);
          cur = clock_gettime (m_tty st1);
          dt = (if tv_sec (m_last_emit_time st1) \<noteq> 0 \<or> tv_nsec (m_last_emit_time st1) \<noteq> 0
                then time_diff cur (m_last_emit_time st1) else 0);
          st2 = st1\<lparr>m_last_emit_time := cur\<rparr>
      in if cfg_out_mode cfg = OUT_JSONL
         then Inl (st2\<lparr>m_acts := m_acts st2 @ [print_json_line ev dt]\<rparr>)
         else if cfg_out_mode cfg = OUT_JSON \<or> cfg_out_mode cfg = OUT_PRETTY then
           (if m_outs_cap st2 < length (m_outs st2) + 1 then
              (let newcap = (if m_outs_cap st2 \<noteq> 0 then m_outs_cap st2 * 2 else 256)
               in if \<not> alloc_ok newcap
                  then Inr (OutOfMemory,
                            st2\<lparr>m_acts := m_acts st2 @ [ErrorMsg 1 ''out of memory'']\<rparr>)
                  else Inl (st2\<lparr>m_outs_cap := newcap,
                               m_outs := m_outs st2 @ [\<lparr>oe_ev = ev, oe_dt = dt\<rparr>]\<rparr>))
            else Inl (st2\<lparr>m_outs := m_outs st2 @ [\<lparr>oe_ev = ev, oe_dt = dt\<rparr>]\<rparr>))
         else if ev_type ev = EVT_PRESS
         then Inl (st2\<lparr>m_acts := m_acts st2 @ [CsvLine (ev_x ev) (ev_y ev) (ev_button ev)]\<rparr>)
         else Inl st2)"

definition handle_event ::
    "config \<Rightarrow> (nat \<Rightarrow> bool) \<Rightarrow> event_t \<Rightarrow> mstate \<Rightarrow> mstate + stop \<times> mstate" where
  \<comment> \<open>lines 620--670, the body of the loop for an event outside record mode\<close>
  "handle_event cfg alloc_ok ev st =
     (case emit_event cfg alloc_ok ev st of
        Inl st2 \<Rightarrow> finish_event cfg ev st2
      | Inr b \<Rightarrow> Inr b)"

definition main_iter ::
    "config \<Rightarrow> (nat \<Rightarrow> bool) \<Rightarrow> nat \<Rightarrow> timespec \<Rightarrow> bool \<Rightarrow> mstate \<Rightarrow> mstate + stop \<times> mstate" where
  \<comment> \<open>one round of the loop of lines 586--671\<close>
  "main_iter cfg alloc_ok max_events rec_start want_motion st =
     (let remaining = cfg_record_seconds cfg - time_diff (clock_gettime (m_tty st)) rec_start
      in if cfg_record_mode cfg \<and> remaining \<le> 0 then Inr (TimeUp, st)
         else
           (case read_sgr_event_timeout (if cfg_record_mode cfg then remaining else - 1)
                   want_motion (m_tty st) of
              (Terminated, s') \<Rightarrow>
                Inr (SourceEnded, st\<lparr>m_tty := s', m_trace := m_trace st @ [Terminated]\<rparr>)
            | (Timeout, s') \<Rightarrow> Inl (st\<lparr>m_tty := s', m_trace := m_trace st @ [Timeout]\<rparr>)
            | (EnterKey, s') \<Rightarrow>
                Inr (EnterPressed, st\<lparr>m_tty := s', m_trace := m_trace st @ [EnterKey]\<rparr>)
            | (Event ev, s') \<Rightarrow>
                (let st0 = st\<lparr>m_tty := s', m_trace := m_trace st @ [Event ev]\<rparr>
                 in if cfg_record_mode cfg
                    then Inl (if length (m_events st0) < max_events
                              then st0\<lparr>m_events := m_events st0 @ [ev]\<rparr> else st0)
                    else handle_event cfg alloc_ok ev st0)))"

definition deadline :: "config \<Rightarrow> timespec \<Rightarrow> nat" where
  \<comment> \<open>the first clock value, in nanoseconds, at which no time remains in record mode\<close>
  "deadline cfg rec_start = nat \<lceil>(cfg_record_seconds cfg + ts_double rec_start) * 1000000000\<rceil>"

lemma finish_event_tty: "finish_event cfg ev st = Inl st' \<Longrightarrow> m_tty st' = m_tty st"
  by (auto simp: finish_event_def Let_def split: if_splits)

lemma emit_event_tty: "emit_event cfg alloc_ok ev st = Inl st' \<Longrightarrow> m_tty st' = m_tty st"
  by (auto simp: emit_event_def Let_def split: if_splits)

lemma handle_event_tty: "handle_event cfg alloc_ok ev st = Inl st' \<Longrightarrow> m_tty st' = m_tty st"
  by (auto simp: handle_event_def split: sum.splits dest!: finish_event_tty emit_event_tty)

lemma time_diff_clock:
  "time_diff (clock_gettime s) rec_start = of_nat (clock s) / 1000000000 - ts_double rec_start"
proof -
  have "clock s = (clock s div 1000000000) * 1000000000 + clock s mod 1000000000" by simp
  then have "(of_nat (clock s) :: rat) =
      of_nat (clock s div 1000000000) * 1000000000 + of_nat (clock s mod 1000000000)"
    by (metis of_nat_add of_nat_mult of_nat_numeral)
  then show ?thesis
    by (simp add: time_diff_def clock_gettime_def ts_double_def field_simps)
qed

lemma remaining_clock:
  assumes "0 < cfg_record_seconds cfg - time_diff (clock_gettime s) rec_start"
  shows "clock s < deadline cfg rec_start"
proof -
  have "of_nat (clock s) / 1000000000 < cfg_record_seconds cfg + ts_double rec_start"
    using assms by (simp add: time_diff_clock)
  then have "(of_nat (clock s) :: rat) < (cfg_record_seconds cfg + ts_double rec_start) * 1000000000"
    by (simp add: field_simps)
  also have "\<dots> \<le> of_int \<lceil>(cfg_record_seconds cfg + ts_double rec_start) * 1000000000\<rceil>"
    by (rule le_of_int_ceiling)
  finally have "int (clock s) < \<lceil>(cfg_record_seconds cfg + ts_double rec_start) * 1000000000\<rceil>"
    by (metis of_int_less_iff of_int_of_nat_eq)
  then show ?thesis by (simp add: deadline_def)
qed

lemma main_iter_decreases:
  assumes "main_iter cfg alloc_ok max_events rec_start want_motion st = Inl st'"
  shows "length (pending (m_tty st')) < length (pending (m_tty st)) \<or>
         length (pending (m_tty st')) = length (pending (m_tty st)) \<and>
         deadline cfg rec_start - clock (m_tty st') < deadline cfg rec_start - clock (m_tty st)"
proof -
  let ?rem = "cfg_record_seconds cfg - time_diff (clock_gettime (m_tty st)) rec_start"
  let ?t = "if cfg_record_mode cfg then ?rem else - 1"
  have go: "\<not> (cfg_record_mode cfg \<and> ?rem \<le> 0)"
    using assms by (auto simp: main_iter_def Let_def)
  obtain r s' where rd: "read_sgr_event_timeout ?t want_motion (m_tty st) = (r, s')"
    by (cases "read_sgr_event_timeout ?t want_motion (m_tty st)")
  note p = reader_progress [OF rd]
  show ?thesis
  proof (cases r)
    case (Event ev)
    then have "m_tty st' = s'"
      using assms go rd
      by (auto simp: main_iter_def Let_def split: if_splits dest!: handle_event_tty)
    with p Event show ?thesis by simp
  next
    case Timeout
    then have tty: "m_tty st' = s'"
      using assms go rd by (auto simp: main_iter_def Let_def)
    have "0 \<le> ?t" and c: "clock (m_tty st) < clock s'" using p Timeout by simp_all
    then have "cfg_record_mode cfg" by (auto split: if_splits)
    with go have "0 < ?rem" by simp
    then have "clock (m_tty st) < deadline cfg rec_start" by (rule remaining_clock)
    with c p tty show ?thesis by auto
  next
    case Terminated
    with assms go rd show ?thesis by (auto simp: main_iter_def Let_def)
  next
    case EnterKey
    with assms go rd show ?thesis by (auto simp: main_iter_def Let_def)
  qed
qed

function main_loop ::
    "config \<Rightarrow> (nat \<Rightarrow> bool) \<Rightarrow> nat \<Rightarrow> timespec \<Rightarrow> bool \<Rightarrow> mstate \<Rightarrow> stop \<times> mstate" where
  \<comment> \<open>the loop of lines 586--671: why it was left, and the state then\<close>
  "main_loop cfg alloc_ok max_events rec_start want_motion st =
     (case main_iter cfg alloc_ok max_events rec_start want_motion st of
        Inl st' \<Rightarrow> main_loop cfg alloc_ok max_events rec_start want_motion st'
      | Inr fin \<Rightarrow> fin)"
  by pat_completeness auto
termination
proof (relation "measures
    [\<lambda>(cfg, alloc_ok, max_events, rec_start, want_motion, st). length (pending (m_tty st)),
     \<lambda>(cfg, alloc_ok, max_events, rec_start, want_motion, st).
        deadline cfg rec_start - clock (m_tty st)]", goal_cases)
  case 1
  show ?case by simp
next
  case (2 cfg alloc_ok max_events rec_start want_motion st st')
  then show ?case
    using main_iter_decreases [of cfg alloc_ok max_events rec_start want_motion st st']
    by auto
qed

declare main_loop.simps [simp del]

definition playback_events_color :: "event_t list \<Rightarrow> action list" where
  \<comment> \<open>lines 225--257: nothing for an empty recording\<close>
  "playback_events_color events = (if events = [] then [] else [Playback events])"

definition finish :: "config \<Rightarrow> string \<Rightarrow> mstate \<Rightarrow> action list" where
  \<comment> \<open>lines 675--717: what is written after the loop\<close>
  "finish cfg started_at st =
     (if cfg_record_mode cfg then
        (let events = m_events st;
             ev_count = length events;
             duration = (if 1 < ev_count
                         then time_diff (ev_t (events ! (ev_count - 1))) (ev_t (events ! 0))
                         else 0)
         in playback_events_color events @
            (if cfg_out_mode cfg = OUT_JSONL then map JsonLine (events_with_dt None events)
             else if cfg_out_mode cfg = OUT_JSON \<or> cfg_out_mode cfg = OUT_PRETTY
             then [print_json_from_events events (cfg_out_mode cfg = OUT_PRETTY)
                     ''record'' started_at duration]
             else map (\<lambda>e. CsvLine (ev_x e) (ev_y e) (ev_button e))
                    (filter (\<lambda>e. ev_type e = EVT_PRESS) events)))
      else if cfg_out_mode cfg = OUT_JSON \<or> cfg_out_mode cfg = OUT_PRETTY then
        (let outs = m_outs st;
             duration = (if 1 < length outs then fold (\<lambda>oe d. d + oe_dt oe) outs 0 else 0)
         in [print_json_history outs (cfg_out_mode cfg = OUT_PRETTY) ''stream'' started_at duration])
      else [])"

definition main :: "config \<Rightarrow> string \<Rightarrow> (nat \<Rightarrow> bool) \<Rightarrow> tty \<Rightarrow> int \<times> action list \<times> stop option \<times> mstate" where
  \<comment> \<open>the exit status, the output, why the loop was left (none in click mode) and the
      final state\<close>
  "main cfg started_at alloc_ok s =
     (if cfg_click_mode cfg then
        (case handle_click_mode (cfg_click_N cfg) (cfg_out_mode cfg) (cfg_do_mark cfg)
                started_at (alloc_ok 1) s of
           (rc, acts, s', tr) \<Rightarrow>
             (if rc = 0 then 0 else 1, acts, None,
              (init_state s')\<lparr>m_acts := acts, m_trace := tr\<rparr>))
      else
        (let want_motion = (cfg_infinite cfg \<or> cfg_record_mode cfg \<or> 0 < cfg_count_limit cfg);
             max_events = (if cfg_record_mode cfg
                           then max_events_of (cfg_record_seconds cfg) else 0)
         in if cfg_record_mode cfg \<and> \<not> alloc_ok max_events
            then (1, [ErrorMsg 1 ''cannot allocate events buffer''], None, init_state s)
            else
              (case main_loop cfg alloc_ok max_events (clock_gettime s) want_motion
                      (init_state s) of
                 (why, st) \<Rightarrow> (0, m_acts st @ finish cfg started_at st, Some why, st))))"

section \<open>Definitions for the statements\<close>

subsection \<open>The input of the decoder\<close>

definition digit_char :: "nat \<Rightarrow> char" where
  "digit_char d = char_of (48 + d)"

fun decimal :: "nat \<Rightarrow> string" where
  "decimal n = (if n < 10 then [digit_char n] else decimal (n div 10) @ [digit_char (n mod 10)])"

declare decimal.simps [simp del]

definition ready :: "rat \<Rightarrow> nat \<Rightarrow> bool" where
  "ready timeout_sec d =
     (case timeval_of timeout_sec of None \<Rightarrow> True | Some v \<Rightarrow> d \<le> timeval_ns v)"

definition sgr_sequence :: "nat \<Rightarrow> nat \<Rightarrow> nat \<Rightarrow> char \<Rightarrow> char list" where
  "sgr_sequence cb cx cy T =
     ESC # CHR ''['' # CHR ''<'' #
       decimal cb @ CHR '';'' # decimal cx @ CHR '';'' # decimal cy @ [T]"

definition classify :: "char \<Rightarrow> int \<Rightarrow> evtype_t" where
  "classify termch cb =
     (if termch = CHR ''M'' then (if cb < 32 then EVT_PRESS else EVT_MOTION) else EVT_RELEASE)"

definition timed :: "nat \<Rightarrow> char list \<Rightarrow> (nat \<times> char) list" where
  \<comment> \<open>the bytes \<open>bs\<close>, each readable \<open>d\<close> nanoseconds after the one before\<close>
  "timed d bs = map (Pair d) bs"

text \<open>
  Malformed bodies, between \<^verbatim>\<open>ESC [ <\<close> and the terminator: fewer than two semicolons, or
  one of the three fields does not start with a number (after optional white space and
  an optional sign).
\<close>

definition semicolons :: "char list \<Rightarrow> nat" where
  "semicolons body = length (filter (\<lambda>c. c = CHR '';'') body)"

definition field1 :: "char list \<Rightarrow> char list" where
  "field1 body = takeWhile (\<lambda>c. c \<noteq> CHR '';'') body"

definition after1 :: "char list \<Rightarrow> char list" where
  "after1 body = drop 1 (dropWhile (\<lambda>c. c \<noteq> CHR '';'') body)"

definition no_number :: "char list \<Rightarrow> bool" where
  "no_number f =
     (let r = dropWhile isspace f;
          r1 = (case r of [] \<Rightarrow> [] | c # cs \<Rightarrow> if c = CHR ''-'' \<or> c = CHR ''+'' then cs else r)
      in takeWhile isdigit r1 = [])"

definition malformed :: "char list \<Rightarrow> bool" where
  "malformed body \<longleftrightarrow>
     semicolons body < 2 \<or> no_number (field1 body) \<or> no_number (field1 (after1 body)) \<or>
     no_number (after1 (after1 body))"

subsection \<open>Runs\<close>

fun presses :: "rd list \<Rightarrow> event_t list" where
  \<comment> \<open>the press events of a history\<close>
  "presses [] = []"
| "presses (Event ev # tr) = (if ev_type ev = EVT_PRESS then ev # presses tr else presses tr)"
| "presses (r # tr) = presses tr"

fun is_event :: "rd \<Rightarrow> bool" where
  "is_event (Event ev) = True"
| "is_event r = False"

fun events_of :: "rd list \<Rightarrow> event_t list" where
  \<comment> \<open>all events of a history\<close>
  "events_of [] = []"
| "events_of (Event ev # tr) = ev # events_of tr"
| "events_of (r # tr) = events_of tr"

definition dist2 :: "event_t \<Rightarrow> event_t \<Rightarrow> int" where
  \<comment> \<open>the squared Euclidean distance of two events\<close>
  "dist2 a b = (ev_x a - ev_x b)\<^sup>2 + (ev_y a - ev_y b)\<^sup>2"

definition small_coords :: "event_t \<Rightarrow> bool" where
  \<comment> \<open>coordinates for which the arithmetic of \<open>near\<close> stays within \<^verbatim>\<open>int\<close>\<close>
  "small_coords e \<longleftrightarrow> \<bar>ev_x e\<bar> \<le> 16383 \<and> \<bar>ev_y e\<bar> \<le> 16383"

definition is_double :: "rat \<Rightarrow> bool" where
  \<comment> \<open>the values a finite \<^verbatim>\<open>double\<close> variable can hold\<close>
  "is_double x \<longleftrightarrow> round_double x = x \<and> \<bar>x\<bar> < 2 ^ 1024"

definition press_limit :: "config \<Rightarrow> int" where
  \<comment> \<open>the output-count limit \<open>N\<close> of single/limited mode: \<^verbatim>\<open>-n N\<close>, or \<open>1\<close> without it\<close>
  "press_limit cfg = (if cfg_count_limit cfg = 0 then 1 else cfg_count_limit cfg)"

fun marks :: "action list \<Rightarrow> (int \<times> int) list" where
  \<comment> \<open>the positions of the marks drawn, in order\<close>
  "marks [] = []"
| "marks (DrawMark x y # acts) = (x, y) # marks acts"
| "marks (a # acts) = marks acts"

fun docs :: "action list \<Rightarrow> json_doc list" where
  \<comment> \<open>the JSON documents written, in order\<close>
  "docs [] = []"
| "docs (JsonDoc d # acts) = d # docs acts"
| "docs (a # acts) = docs acts"

definition press_entries :: "json_doc \<Rightarrow> nat" where
  \<comment> \<open>the number of entries of \<^verbatim>\<open>events\<close> whose type is \<^verbatim>\<open>press\<close>\<close>
  "press_entries d = length (filter (\<lambda>j. je_type j = ''press'') (jd_events d))"

subsection \<open>Example options\<close>

definition ex_limited :: config where
  \<comment> \<open>\<^verbatim>\<open>-n 2 -j -m\<close>\<close>
  "ex_limited =
     \<lparr>cfg_infinite = False, cfg_count_limit = 2, cfg_click_mode = False, cfg_click_N = 0,
      cfg_record_mode = False, cfg_record_seconds = 0, cfg_out_mode = OUT_JSON,
      cfg_do_mark = True\<rparr>"

definition ex_record :: config where
  \<comment> \<open>\<^verbatim>\<open>-r 1 -j -m\<close>\<close>
  "ex_record =
     \<lparr>cfg_infinite = False, cfg_count_limit = 0, cfg_click_mode = False, cfg_click_N = 0,
      cfg_record_mode = True, cfg_record_seconds = 1, cfg_out_mode = OUT_JSON,
      cfg_do_mark = True\<rparr>"

definition ex_click :: config where
  \<comment> \<open>\<^verbatim>\<open>-c 2 -m\<close>\<close>
  "ex_click =
     \<lparr>cfg_infinite = False, cfg_count_limit = 0, cfg_click_mode = True, cfg_click_N = 2,
      cfg_record_mode = False, cfg_record_seconds = 0, cfg_out_mode = OUT_CSV,
      cfg_do_mark = True\<rparr>"

section \<open>The decoder\<close>

subsection \<open>Decimal numbers and \<^verbatim>\<open>strtol\<close>\<close>

lemma dec_value_snoc: "dec_value acc (xs @ [c]) = 10 * dec_value acc xs + digit_of c"
  by (induction xs arbitrary: acc) auto

lemma of_char_digit_char: "d < 10 \<Longrightarrow> (of_char (digit_char d) :: nat) = 48 + d"
  by (simp add: digit_char_def)

lemma digit_of_digit_char: "d < 10 \<Longrightarrow> digit_of (digit_char d) = int d"
  by (simp add: digit_of_def of_char_digit_char)

lemma isdigit_digit_char: "d < 10 \<Longrightarrow> isdigit (digit_char d)"
  by (simp add: isdigit_def of_char_digit_char)

lemma dec_value_decimal: "dec_value 0 (decimal n) = int n"
proof (induction n rule: decimal.induct)
  case (1 n)
  show ?case
  proof (cases "n < 10")
    case True
    then show ?thesis by (simp add: decimal.simps [of n] digit_of_digit_char)
  next
    case False
    then have "dec_value 0 (decimal n) = 10 * int (n div 10) + int (n mod 10)"
      using "1.IH" by (simp add: decimal.simps [of n] dec_value_snoc digit_of_digit_char)
    moreover have "10 * int (n div 10) + int (n mod 10) = int n" by presburger
    ultimately show ?thesis by simp
  qed
qed

lemma decimal_digits: "c \<in> set (decimal n) \<Longrightarrow> isdigit c"
proof (induction n rule: decimal.induct)
  case (1 n)
  then show ?case
    by (cases "n < 10") (auto simp: decimal.simps [of n] isdigit_digit_char)
qed

lemma decimal_nonempty: "decimal n \<noteq> []"
  by (cases "n < 10") (simp_all add: decimal.simps [of n])

lemma decimal_length: "0 < k \<Longrightarrow> n < 10 ^ k \<Longrightarrow> length (decimal n) \<le> k"
proof (induction n arbitrary: k rule: decimal.induct)
  case (1 n)
  show ?case
  proof (cases "n < 10")
    case True
    with "1.prems" show ?thesis by (simp add: decimal.simps [of n])
  next
    case False
    obtain j where k: "k = Suc j" using "1.prems" by (cases k) auto
    have "0 < j" using False "1.prems" k by (cases j) auto
    moreover have "n div 10 < 10 ^ j" using "1.prems" k by (simp add: less_mult_imp_div_less mult.commute)
    ultimately have "length (decimal (n div 10)) \<le> j" using "1.IH" False by simp
    with False k show ?thesis by (simp add: decimal.simps [of n])
  qed
qed

lemma isdigit_not_space: "isdigit c \<Longrightarrow> \<not> isspace c"
  by (auto simp: isdigit_def isspace_def)

lemma isdigit_not_special:
  "isdigit c \<Longrightarrow> c \<noteq> CHR ''-'' \<and> c \<noteq> CHR ''+'' \<and> c \<noteq> CHR '';'' \<and> c \<noteq> NUL \<and> c \<noteq> CHR ''M'' \<and> c \<noteq> CHR ''m''"
  by (auto simp: isdigit_def NUL_def)

lemma dec_value_nonneg: "0 \<le> acc \<Longrightarrow> \<forall>c\<in>set ds. isdigit c \<Longrightarrow> 0 \<le> dec_value acc ds"
  by (induction ds arbitrary: acc) (auto simp: isdigit_def digit_of_def)

lemma strtol_digits:
  assumes "ds \<noteq> []" and "\<forall>c\<in>set ds. isdigit c" and "dec_value 0 ds \<le> LONG_MAX"
  shows "strtol ds = (dec_value 0 ds, length ds, False)"
proof -
  obtain c cs where ds: "ds = c # cs" using assms(1) by (cases ds) auto
  have c: "isdigit c" using assms(2) ds by simp
  have sp: "takeWhile isspace ds = []" "dropWhile isspace ds = ds"
    using c ds by (simp_all add: isdigit_not_space)
  have hd: "hd ds \<noteq> CHR ''-''" "hd ds \<noteq> CHR ''+''"
    using c ds isdigit_not_special [of c] by simp_all
  have tw: "takeWhile isdigit ds = ds" using assms(2) by (simp add: takeWhile_eq_all_conv)
  have nn: "0 \<le> dec_value 0 ds" using assms(2) by (simp add: dec_value_nonneg)
  show ?thesis
    using assms(1,3) nn by (simp add: strtol_def sp hd tw Let_def LONG_MIN_def)
qed

lemma strtol_no_conversion:
  "takeWhile isdigit (let r = dropWhile isspace f in if r \<noteq> [] \<and> (hd r = CHR ''-'' \<or> hd r = CHR ''+'') then tl r else r) = []
   \<Longrightarrow> strtol f = (0, 0, False)"
  by (simp add: strtol_def Let_def)

lemma cstr_id: "NUL \<notin> set bs \<Longrightarrow> cstr bs = bs"
  by (induction bs) (auto simp: cstr_def)

lemma strchr_cut_first:
  "c \<notin> set f \<Longrightarrow> strchr_cut (f @ c # r) c = Some (f, r)"
  by (induction f) (auto simp: strchr_cut_def)

lemma strchr_cut_none: "c \<notin> set s \<Longrightarrow> strchr_cut s c = None"
  by (simp add: strchr_cut_def)

lemma parse_sgr_fields:
  assumes "CHR '';'' \<notin> set f1" and "CHR '';'' \<notin> set f2"
    and "NUL \<notin> set (f1 @ f2 @ f3)"
    and "length f1 + length f2 + length f3 + 4 < SGR_BUF"
  shows "parse_sgr (CHR ''<'' # f1 @ CHR '';'' # f2 @ CHR '';'' # f3 @ [T]) =
     (let (vcb, n1, e1) = strtol f1 in
      if e1 \<or> n1 = 0 then None
      else let (vcx, n2, e2) = strtol f2 in
        if e2 \<or> n2 = 0 then None
        else let (vcy, n3, e3) = strtol f3 in
          if e3 \<or> n3 = 0 then None
          else Some (c_int vcb, c_int vcx, c_int vcy, T))"
proof -
  let ?buf = "CHR ''<'' # f1 @ CHR '';'' # f2 @ CHR '';'' # f3 @ [T]"
  have len: "length ?buf = length f1 + length f2 + length f3 + 4" by simp
  have tk: "take (length ?buf - 2) (drop 1 ?buf) = f1 @ CHR '';'' # f2 @ CHR '';'' # f3"
    by simp
  have nul: "NUL \<notin> set (f1 @ CHR '';'' # f2 @ CHR '';'' # f3)"
    using assms(3) by (auto simp: NUL_def)
  have tmp: "cstr (take (length ?buf - 2) (drop 1 ?buf)) = f1 @ CHR '';'' # f2 @ CHR '';'' # f3"
    unfolding tk using nul by (rule cstr_id)
  have lst: "?buf ! (length ?buf - 1) = T"
    by (metis last_snoc append_Cons append_assoc last_conv_nth snoc_eq_iff_butlast list.discI)
  have c1: "strchr_cut (f1 @ CHR '';'' # f2 @ CHR '';'' # f3) (CHR '';'') = Some (f1, f2 @ CHR '';'' # f3)"
    using assms(1) by (rule strchr_cut_first)
  have c2: "strchr_cut (f2 @ CHR '';'' # f3) (CHR '';'') = Some (f2, f3)"
    using assms(2) by (rule strchr_cut_first)
  have g: "\<not> (length ?buf < 4 \<or> ?buf ! 0 \<noteq> CHR ''<'' \<or> SGR_BUF \<le> length ?buf)"
    using assms(4) by simp
  show ?thesis
    unfolding parse_sgr_def tmp lst using g
    by (simp only: if_False Let_def c1 c2 option.case prod.case)
      (auto split: prod.splits)
qed

lemma read_body_run:
  assumes "\<forall>c\<in>set (map snd ib). c \<noteq> CHR ''M'' \<and> c \<noteq> CHR ''m''"
    and "T = CHR ''M'' \<or> T = CHR ''m''"
    and "length buf + length ib + 1 < SGR_BUF"
  shows "read_body buf \<lparr>clock = k, pending = ib @ (dT, T) # rest\<rparr> =
    (Some (buf @ map snd ib @ [T]),
     \<lparr>clock = k + sum_list (map fst ib) + dT, pending = rest\<rparr>)"
  using assms
proof (induction ib arbitrary: buf k)
  case Nil
  then show ?case by (auto simp: read_body.simps [of buf] read_byte_def)
next
  case (Cons a ib)
  obtain d c where a: "a = (d, c)" by (cases a)
  have c: "c \<noteq> CHR ''M''" "c \<noteq> CHR ''m''" using Cons.prems(1) a by auto
  have "read_body buf \<lparr>clock = k, pending = (a # ib) @ (dT, T) # rest\<rparr> =
      read_body (buf @ [c]) \<lparr>clock = k + d, pending = ib @ (dT, T) # rest\<rparr>"
    using Cons.prems(3) c a by (simp add: read_body.simps [of buf] read_byte_def)
  also have "\<dots> = (Some ((buf @ [c]) @ map snd ib @ [T]),
     \<lparr>clock = (k + d) + sum_list (map fst ib) + dT, pending = rest\<rparr>)"
    using Cons.prems by (intro Cons.IH) auto
  finally show ?case using a by (simp add: add.assoc)
qed

lemma ready_select:
  "ready t d \<Longrightarrow> select_tty (timeval_of t) \<lparr>clock = k, pending = (d, c) # r\<rparr> =
     (True, \<lparr>clock = k + d, pending = (0, c) # r\<rparr>)"
  by (auto simp: ready_def select_tty_def split: option.splits)

lemma reader_eof:
  "read_sgr_event_timeout t w \<lparr>clock = k, pending = []\<rparr> = (Terminated, \<lparr>clock = k, pending = []\<rparr>)"
  by (simp add: read_sgr_event_timeout.simps [of t w "\<lparr>clock = k, pending = []\<rparr>"] select_tty_def read_byte_def)

lemma reader_timeout:
  "\<not> ready t d \<Longrightarrow>
   read_sgr_event_timeout t w \<lparr>clock = k, pending = (d, c) # r\<rparr> =
     (Timeout, \<lparr>clock = k + max (timeval_ns (the (timeval_of t))) 1,
        pending = (d - max (timeval_ns (the (timeval_of t))) 1, c) # r\<rparr>)"
  by (auto simp: read_sgr_event_timeout.simps [of t w "\<lparr>clock = k, pending = (d, c) # r\<rparr>"]
      ready_def select_tty_def split: option.splits)



lemma ESC_neq: "ESC \<noteq> CR" "ESC \<noteq> LF"
  by (simp_all add: ESC_def CR_def LF_def)

lemma reader_esc_eof:
  "ready t d \<Longrightarrow>
   read_sgr_event_timeout t w \<lparr>clock = k, pending = [(d, ESC)]\<rparr> =
     (Terminated, \<lparr>clock = k + d, pending = []\<rparr>)"
  by (simp add: read_sgr_event_timeout.simps [of t w "\<lparr>clock = k, pending = [(d, ESC)]\<rparr>"]
      ready_select read_byte_def ESC_neq)


lemma reader_esc_bracket_eof:
  "ready t d \<Longrightarrow>
   read_sgr_event_timeout t w \<lparr>clock = k, pending = [(d, ESC), (d2, CHR ''['')]\<rparr> =
     (Terminated, \<lparr>clock = k + d + d2, pending = []\<rparr>)"
  by (simp add: read_sgr_event_timeout.simps [of t w "\<lparr>clock = k, pending = [(d, ESC), (d2, CHR ''['')]\<rparr>"]
      ready_select read_byte_def ESC_neq)


lemma reader_body:
  "ready t d \<Longrightarrow>
   read_sgr_event_timeout t w \<lparr>clock = k, pending = (d, ESC) # (d2, CHR ''['') # (d3, CHR ''<'') # r\<rparr> =
     (case read_body [CHR ''<''] \<lparr>clock = k + d + d2 + d3, pending = r\<rparr> of
        (None, s4) \<Rightarrow> (Terminated, s4)
      | (Some buf, s4) \<Rightarrow>
          (case parse_sgr buf of
             None \<Rightarrow> read_sgr_event_timeout t w s4
           | Some (cb, x, y, termch) \<Rightarrow>
               (Event \<lparr>ev_x = x, ev_y = y, ev_button = cb,
                  ev_type = (if termch = CHR ''M''
                             then (if cb < 32 then EVT_PRESS else EVT_MOTION)
                             else EVT_RELEASE),
                  ev_t = clock_gettime s4\<rparr>, s4)))"
  by (simp add: read_sgr_event_timeout.simps [of t w "\<lparr>clock = k, pending = (d, ESC) # (d2, CHR ''['') # (d3, CHR ''<'') # r\<rparr>"]
      ready_select read_byte_def ESC_neq)

lemma c_int_id: "- 2147483648 \<le> v \<Longrightarrow> v \<le> 2147483647 \<Longrightarrow> c_int v = v"
  by (simp add: c_int_def)

lemma strtol_decimal:
  "n \<le> nat INT_MAX \<Longrightarrow> strtol (decimal n) = (int n, length (decimal n), False)"
  using strtol_digits [of "decimal n"]
  by (simp add: decimal_nonempty decimal_digits dec_value_decimal INT_MAX_def LONG_MAX_def)

lemma decimal_length_int: "n \<le> nat INT_MAX \<Longrightarrow> length (decimal n) \<le> 10"
  using decimal_length [of 10 n] by (simp add: INT_MAX_def)

lemma decimal_no_special:
  "CHR '';'' \<notin> set (decimal n)" "NUL \<notin> set (decimal n)"
  "CHR ''M'' \<notin> set (decimal n)" "CHR ''m'' \<notin> set (decimal n)"
  using decimal_digits [of _ n] isdigit_not_special by blast+

lemma parse_sgr_decimal:
  assumes "cb \<le> nat INT_MAX" and "cx \<le> nat INT_MAX" and "cy \<le> nat INT_MAX"
  shows "parse_sgr (CHR ''<'' # decimal cb @ CHR '';'' # decimal cx @ CHR '';'' # decimal cy @ [T]) =
     Some (int cb, int cx, int cy, T)"
proof -
  have len: "length (decimal cb) + length (decimal cx) + length (decimal cy) + 4 < SGR_BUF"
    using assms [THEN decimal_length_int] by (simp add: SGR_BUF_def)
  have nul: "NUL \<notin> set (decimal cb @ decimal cx @ decimal cy)"
    by (simp add: decimal_no_special)
  have ci: "c_int (int cb) = int cb" "c_int (int cx) = int cx" "c_int (int cy) = int cy"
    using assms by (simp_all add: c_int_id INT_MAX_def)
  show ?thesis
    using parse_sgr_fields [OF decimal_no_special(1) decimal_no_special(1) nul len, of T]
    by (simp add: strtol_decimal assms decimal_nonempty ci)
qed

lemma split_timed:
  assumes "map snd items = a # b # c # body @ [T]"
  shows "\<exists>d d2 d3 ib dT. items = (d, a) # (d2, b) # (d3, c) # ib @ [(dT, T)] \<and> map snd ib = body"
proof -
  obtain p1 r1 where 1: "items = p1 # r1" "snd p1 = a" "map snd r1 = b # c # body @ [T]"
    using assms by (auto simp: map_eq_Cons_conv)
  obtain p2 r2 where 2: "r1 = p2 # r2" "snd p2 = b" "map snd r2 = c # body @ [T]"
    using 1(3) by (auto simp: map_eq_Cons_conv)
  obtain p3 r3 where 3: "r2 = p3 # r3" "snd p3 = c" "map snd r3 = body @ [T]"
    using 2(3) by (auto simp: map_eq_Cons_conv)
  obtain ib l where 4: "r3 = ib @ l" "map snd ib = body" "map snd l = [T]"
    using 3(3) by (auto simp: map_eq_append_conv)
  obtain p4 where 5: "l = [p4]" "snd p4 = T" using 4(3) by (auto simp: map_eq_Cons_conv)
  have "items = (fst p1, a) # (fst p2, b) # (fst p3, c) # ib @ [(fst p4, T)]"
    using 1 2 3 4 5 by (auto simp: prod_eq_iff)
  with 4(2) show ?thesis by blast
qed

lemma reader_valid_seq:
  assumes "cb \<le> nat INT_MAX" and "cx \<le> nat INT_MAX" and "cy \<le> nat INT_MAX"
    and T: "T = CHR ''M'' \<or> T = CHR ''m''"
    and items: "map snd items = sgr_sequence cb cx cy T"
    and rdy: "ready timeout_sec (fst (hd items))"
  shows "read_sgr_event_timeout timeout_sec want_motion \<lparr>clock = k, pending = items @ rest\<rparr> =
     (Event \<lparr>ev_x = int cx, ev_y = int cy, ev_button = int cb,
        ev_type = classify T (int cb),
        ev_t = clock_gettime \<lparr>clock = k + sum_list (map fst items), pending = rest\<rparr>\<rparr>,
      \<lparr>clock = k + sum_list (map fst items), pending = rest\<rparr>)"
proof -
  let ?body = "decimal cb @ CHR '';'' # decimal cx @ CHR '';'' # decimal cy"
  obtain d d2 d3 ib dT where it:
    "items = (d, ESC) # (d2, CHR ''['') # (d3, CHR ''<'') # ib @ [(dT, T)]" "map snd ib = ?body"
    using split_timed [of items ESC "CHR ''[''" "CHR ''<''" ?body T] items
    by (auto simp: sgr_sequence_def)
  have r: "ready timeout_sec d" using rdy it by simp
  have nm: "\<forall>c\<in>set (map snd ib). c \<noteq> CHR ''M'' \<and> c \<noteq> CHR ''m''"
    unfolding it(2) using decimal_no_special(3,4) by auto
  have "length ?body \<le> 32"
    using assms(1-3) [THEN decimal_length_int] by simp
  then have len: "length [CHR ''<''] + length ib + 1 < SGR_BUF"
    using it(2) [THEN arg_cong, of length] by (simp add: SGR_BUF_def)
  have rb: "read_body [CHR ''<''] \<lparr>clock = k + d + d2 + d3, pending = ib @ (dT, T) # rest\<rparr> =
      (Some (CHR ''<'' # ?body @ [T]),
       \<lparr>clock = k + d + d2 + d3 + sum_list (map fst ib) + dT, pending = rest\<rparr>)"
    using read_body_run [OF nm T len, of "k + d + d2 + d3" dT rest] it(2) by simp
  have ps: "parse_sgr (CHR ''<'' # ?body @ [T]) = Some (int cb, int cx, int cy, T)"
    using parse_sgr_decimal [OF assms(1-3), of T] by simp
  have sum: "k + sum_list (map fst items) = k + d + d2 + d3 + sum_list (map fst ib) + dT"
    using it(1) by simp
  have "read_sgr_event_timeout timeout_sec want_motion \<lparr>clock = k, pending = items @ rest\<rparr> =
      read_sgr_event_timeout timeout_sec want_motion
        \<lparr>clock = k, pending = (d, ESC) # (d2, CHR ''['') # (d3, CHR ''<'') # ib @ (dT, T) # rest\<rparr>"
    by (simp add: it(1))
  also have "\<dots> = (Event \<lparr>ev_x = int cx, ev_y = int cy, ev_button = int cb,
        ev_type = classify T (int cb),
        ev_t = clock_gettime \<lparr>clock = k + d + d2 + d3 + sum_list (map fst ib) + dT, pending = rest\<rparr>\<rparr>,
      \<lparr>clock = k + d + d2 + d3 + sum_list (map fst ib) + dT, pending = rest\<rparr>)"
    unfolding reader_body [OF r] rb classify_def
    by (simp only: prod.case option.case ps)
  finally show ?thesis unfolding sum .
qed

lemma digit_char_numerals:
  "digit_char 0 = CHR ''0''" "digit_char 1 = CHR ''1''" "digit_char 2 = CHR ''2''"
  "digit_char 3 = CHR ''3''" "digit_char 4 = CHR ''4''" "digit_char 5 = CHR ''5''"
  "digit_char 6 = CHR ''6''" "digit_char 7 = CHR ''7''" "digit_char 8 = CHR ''8''"
  "digit_char 9 = CHR ''9''" "digit_char (Suc 0) = CHR ''1''"
  by code_simp+

lemmas decimal_eval = decimal.simps digit_char_numerals sgr_sequence_def

subsection \<open>Malformed sequences and bytes outside a sequence\<close>

lemma strip_sign_eq:
  "(case r of [] \<Rightarrow> [] | c # cs \<Rightarrow> if c = CHR ''-'' \<or> c = CHR ''+'' then cs else r) =
   (if r \<noteq> [] \<and> (hd r = CHR ''-'' \<or> hd r = CHR ''+'') then tl r else r)"
  by (cases r) auto

lemma strtol_no_number: "no_number f \<Longrightarrow> strtol f = (0, 0, False)"
  unfolding no_number_def strtol_def Let_def strip_sign_eq by simp

lemma strchr_cut_fields:
  "strchr_cut b (CHR '';'') = (if CHR '';'' \<in> set b then Some (field1 b, after1 b) else None)"
  by (simp add: strchr_cut_def field1_def after1_def drop_Suc)

lemma semicolons_after1:
  "CHR '';'' \<in> set b \<Longrightarrow> semicolons b = Suc (semicolons (after1 b))"
  by (induction b) (auto simp: semicolons_def after1_def)

lemma semicolons_0: "semicolons b = 0 \<longleftrightarrow> CHR '';'' \<notin> set b"
  by (induction b) (auto simp: semicolons_def)

lemma few_semicolons:
  "semicolons b < 2 \<Longrightarrow> CHR '';'' \<notin> set b \<or> CHR '';'' \<notin> set (after1 b)"
  using semicolons_after1 [of b] semicolons_0 [of "after1 b"] by auto

lemma parse_sgr_malformed:
  assumes "NUL \<notin> set body" and "malformed body"
  shows "parse_sgr (CHR ''<'' # body @ [T]) = None"
proof -
  let ?buf = "CHR ''<'' # body @ [T]"
  have tmp: "cstr (take (length ?buf - 2) (drop 1 ?buf)) = body"
    using assms(1) by (simp add: cstr_id)
  consider "CHR '';'' \<notin> set body \<or> CHR '';'' \<notin> set (after1 body)"
    | "no_number (field1 body)" | "no_number (field1 (after1 body))"
    | "no_number (after1 (after1 body))"
    using assms(2) few_semicolons [of body] unfolding malformed_def by blast
  then show ?thesis
  proof cases
    case 1
    then show ?thesis unfolding parse_sgr_def tmp by (auto simp: strchr_cut_fields Let_def)
  next
    case 2
    then show ?thesis unfolding parse_sgr_def tmp
      by (auto simp: strchr_cut_fields Let_def strtol_no_number)
  next
    case 3
    then show ?thesis unfolding parse_sgr_def tmp
      by (auto simp: strchr_cut_fields Let_def strtol_no_number split: prod.splits)
  next
    case 4
    then show ?thesis unfolding parse_sgr_def tmp
      by (auto simp: strchr_cut_fields Let_def strtol_no_number split: prod.splits)
  qed
qed


lemma reader_malformed_skip:
  assumes T: "T = CHR ''M'' \<or> T = CHR ''m''"
    and ib: "map snd ib = body"
    and nt: "\<forall>c\<in>set body. c \<noteq> CHR ''M'' \<and> c \<noteq> CHR ''m''"
    and len: "length body + 2 < SGR_BUF"
    and nul: "NUL \<notin> set body"
    and mal: "malformed body"
    and rdy: "ready t d"
  shows "read_sgr_event_timeout t w
      \<lparr>clock = k, pending = (d, ESC) # (d2, CHR ''['') # (d3, CHR ''<'') # ib @ (dT, T) # rest\<rparr> =
     read_sgr_event_timeout t w
      \<lparr>clock = k + d + d2 + d3 + sum_list (map fst ib) + dT, pending = rest\<rparr>"
proof -
  have nm: "\<forall>c\<in>set (map snd ib). c \<noteq> CHR ''M'' \<and> c \<noteq> CHR ''m''" using nt ib by simp
  have l: "length [CHR ''<''] + length ib + 1 < SGR_BUF"
    using len ib [THEN arg_cong, of length] by simp
  have rb: "read_body [CHR ''<''] \<lparr>clock = k + d + d2 + d3, pending = ib @ (dT, T) # rest\<rparr> =
      (Some (CHR ''<'' # body @ [T]),
       \<lparr>clock = k + d + d2 + d3 + sum_list (map fst ib) + dT, pending = rest\<rparr>)"
    using read_body_run [OF nm T l, of "k + d + d2 + d3" dT rest] ib by simp
  show ?thesis
    unfolding reader_body [OF rdy] rb
    by (simp only: prod.case option.case parse_sgr_malformed [OF nul mal])
qed

lemma timeval_of_block: "timeval_of (- 1) = None"
  by (simp add: timeval_of_def)

lemma timeval_of_gap: "timeval_of MULTICLICK_MAX_GAP = Some (0, 500000)"
  by code_simp

lemmas decoder_eval =
  timed_def read_sgr_event_timeout.simps read_body.simps read_byte_def select_tty_def
  timeval_of_block timeval_of_gap timeval_ns_def SGR_BUF_def ESC_def CR_def LF_def NUL_def
  parse_sgr_def cstr_def strchr_cut_def strtol_def isspace_def isdigit_def digit_of_def
  c_int_def c_trunc_def LONG_MAX_def LONG_MIN_def clock_gettime_def

subsection \<open>Claims on the decoder\<close>

text \<open>
  C1. Every valid SGR sequence \<^verbatim>\<open>ESC [ < Cb ; Cx ; Cy\<close> followed by \<^verbatim>\<open>M\<close> or \<^verbatim>\<open>m\<close> is decoded
  to an event with \<open>x = Cx\<close>, \<open>y = Cy\<close>, \<open>button = Cb\<close>; it is a press iff the terminator is
  \<^verbatim>\<open>M\<close> and \<open>Cb < 32\<close>, a motion iff the terminator is \<^verbatim>\<open>M\<close> and \<open>Cb \<ge> 32\<close>, and a release
  iff the terminator is \<^verbatim>\<open>m\<close>. A valid sequence carries three decimal numbers that an
  \<^verbatim>\<open>int\<close> field of the event can hold; the bytes may arrive with any delays, the first one
  within the timeout of the call. The event is stamped with the clock at the terminator and
  the bytes after the sequence are left unread.
\<close>

theorem sgr_decode_valid:
  assumes "cb \<le> nat INT_MAX" and "cx \<le> nat INT_MAX" and "cy \<le> nat INT_MAX"
    and "T = CHR ''M'' \<or> T = CHR ''m''"
    and "map snd items = sgr_sequence cb cx cy T"
    and "ready timeout_sec (fst (hd items))"
  shows "\<exists>ev. read_sgr_event_timeout timeout_sec want_motion \<lparr>clock = k, pending = items @ rest\<rparr> =
           (Event ev, \<lparr>clock = k + sum_list (map fst items), pending = rest\<rparr>) \<and>
         ev_x ev = int cx \<and> ev_y ev = int cy \<and> ev_button ev = int cb \<and>
         ev_t ev = clock_gettime \<lparr>clock = k + sum_list (map fst items), pending = rest\<rparr> \<and>
         (ev_type ev = EVT_PRESS \<longleftrightarrow> T = CHR ''M'' \<and> cb < 32) \<and>
         (ev_type ev = EVT_MOTION \<longleftrightarrow> T = CHR ''M'' \<and> 32 \<le> cb) \<and>
         (ev_type ev = EVT_RELEASE \<longleftrightarrow> T = CHR ''m'')"
proof -
  have "T \<noteq> CHR ''M'' \<Longrightarrow> T = CHR ''m''" using assms(4) by blast
  then show ?thesis
    unfolding reader_valid_seq [OF assms, of want_motion k rest]
    by (auto simp: classify_def)
qed

theorem sgr_decode_valid_witness:
  "(0 \<le> nat INT_MAX \<and> 12 \<le> nat INT_MAX \<and> 34 \<le> nat INT_MAX) \<and>
   map snd (timed 1000 (ESC # ''[<0;12;34M'')) = sgr_sequence 0 12 34 (CHR ''M'') \<and>
   ready (- 1) (fst (hd (timed 1000 (ESC # ''[<0;12;34M'')))) \<and>
   (\<exists>ev. read_sgr_event_timeout (- 1) False
            \<lparr>clock = 0, pending = timed 1000 (ESC # ''[<0;12;34M'') @ [(5, CHR ''z'')]\<rparr> =
           (Event ev, \<lparr>clock = 11000, pending = [(5, CHR ''z'')]\<rparr>) \<and>
         ev_x ev = 12 \<and> ev_y ev = 34 \<and> ev_button ev = 0 \<and> ev_type ev = EVT_PRESS)"
proof -
  let ?items = "timed 1000 (ESC # ''[<0;12;34M'')"
  have h1: "(0::nat) \<le> nat INT_MAX" "(12::nat) \<le> nat INT_MAX" "(34::nat) \<le> nat INT_MAX"
    by (simp_all add: INT_MAX_def)
  have h2: "CHR ''M'' = CHR ''M'' \<or> CHR ''M'' = CHR ''m''" by simp
  have h3: "map snd ?items = sgr_sequence 0 12 34 (CHR ''M'')"
    by (simp add: decimal_eval timed_def)
  have h4: "ready (- 1) (fst (hd ?items))"
    by (simp add: ready_def timeval_of_def)
  have s: "0 + sum_list (map fst ?items) = 11000" by (simp add: timed_def)
  obtain ev where ev:
    "read_sgr_event_timeout (- 1) False \<lparr>clock = 0, pending = ?items @ [(5, CHR ''z'')]\<rparr> =
       (Event ev, \<lparr>clock = 11000, pending = [(5, CHR ''z'')]\<rparr>)"
    "ev_x ev = 12" "ev_y ev = 34" "ev_button ev = 0" "ev_type ev = EVT_PRESS"
    using sgr_decode_valid [OF h1 h2 h3 h4, of False 0 "[(5, CHR ''z'')]"] unfolding s
    by auto
  show ?thesis
    using h1 h3 h4 ev by blast
qed




text \<open>
  C3, as the claim states it, fails in three ways. A sequence cut off before its terminator
  takes the bytes of the valid sequence after it into its own body: \<^verbatim>\<open>ESC [ < 1 ; 2\<close> followed
  by \<^verbatim>\<open>ESC [ < 3 ; 4 ; 5 M\<close> gives one press with button 1 at (2, 4), and the valid sequence
  is lost. A field that starts with a number and goes on with other bytes is accepted:
  \<^verbatim>\<open>1x;2;3\<close> gives a press. A body that fills the buffer before any terminator is parsed as
  it stands, its last byte taken for the terminator: \<^verbatim>\<open>1;2;\<close> and 122 zeros give a release.
\<close>

theorem malformed_sequence_counterexample:
  "read_sgr_event_timeout (- 1) False
       \<lparr>clock = 0, pending = timed 1000 (ESC # ''[<1;2'' @ ESC # ''[<3;4;5M'')\<rparr> =
     (Event \<lparr>ev_x = 2, ev_y = 4, ev_button = 1, ev_type = EVT_PRESS,
        ev_t = \<lparr>tv_sec = 0, tv_nsec = 15000\<rparr>\<rparr>,
      \<lparr>clock = 15000, pending = []\<rparr>) \<and>
   read_sgr_event_timeout (- 1) False
       \<lparr>clock = 0, pending = timed 1000 (ESC # ''[<1x;2;3M'')\<rparr> =
     (Event \<lparr>ev_x = 2, ev_y = 3, ev_button = 1, ev_type = EVT_PRESS,
        ev_t = \<lparr>tv_sec = 0, tv_nsec = 10000\<rparr>\<rparr>,
      \<lparr>clock = 10000, pending = []\<rparr>) \<and>
   read_sgr_event_timeout (- 1) False
       \<lparr>clock = 0,
        pending = timed 1000 (ESC # ''[<1;2;'' @
          ''00000000000000000000000000000000000000000000000000000000000000000000000000000000000000000000000000000000000000000000000000'' @
          ''M'')\<rparr> =
     (Event \<lparr>ev_x = 2, ev_y = 0, ev_button = 1, ev_type = EVT_RELEASE,
        ev_t = \<lparr>tv_sec = 0, tv_nsec = 129000\<rparr>\<rparr>,
      \<lparr>clock = 129000, pending = [(1000, CHR ''M'')]\<rparr>)"
  by (simp add: decoder_eval)

text \<open>
  C3, amended. A sequence \<^verbatim>\<open>ESC [ <\<close>, body, terminator \<^verbatim>\<open>M\<close> or \<^verbatim>\<open>m\<close> that fits the buffer,
  whose body has fewer than two semicolons or a field that does not start with a number,
  produces no event and does not stop the decoder: scanning resumes at the byte after the
  terminator, and a valid SGR sequence that follows is decoded to its event.
\<close>

theorem malformed_sequence_resync:
  assumes "T = CHR ''M'' \<or> T = CHR ''m''"
    and "map snd ib = body"
    and "\<forall>c\<in>set body. c \<noteq> CHR ''M'' \<and> c \<noteq> CHR ''m''"
    and "length body + 2 < SGR_BUF"
    and "NUL \<notin> set body"
    and "malformed body"
    and "ready t d"
    and "cb \<le> nat INT_MAX" and "cx \<le> nat INT_MAX" and "cy \<le> nat INT_MAX"
    and "T' = CHR ''M'' \<or> T' = CHR ''m''"
    and "map snd items = sgr_sequence cb cx cy T'"
    and "ready t (fst (hd items))"
  shows "read_sgr_event_timeout t w
           \<lparr>clock = k,
            pending = (d, ESC) # (d2, CHR ''['') # (d3, CHR ''<'') # ib @ (dT, T) # rest\<rparr> =
         read_sgr_event_timeout t w
           \<lparr>clock = k + d + d2 + d3 + sum_list (map fst ib) + dT, pending = rest\<rparr> \<and>
         read_sgr_event_timeout t w
           \<lparr>clock = k,
            pending = (d, ESC) # (d2, CHR ''['') # (d3, CHR ''<'') # ib @ (dT, T) # items @ rest\<rparr> =
         (Event \<lparr>ev_x = int cx, ev_y = int cy, ev_button = int cb,
            ev_type = classify T' (int cb),
            ev_t = clock_gettime
              \<lparr>clock = k + d + d2 + d3 + sum_list (map fst ib) + dT + sum_list (map fst items),
               pending = rest\<rparr>\<rparr>,
          \<lparr>clock = k + d + d2 + d3 + sum_list (map fst ib) + dT + sum_list (map fst items),
           pending = rest\<rparr>)"
  unfolding reader_malformed_skip [OF assms(1-7)]
    reader_valid_seq [OF assms(8-13)]
  by simp

theorem malformed_sequence_resync_witness:
  "malformed ''1;2'' \<and> malformed ''x;1;2'' \<and>
   read_sgr_event_timeout (- 1) False
       \<lparr>clock = 0, pending = timed 1000 (ESC # ''[<1;2M'') @ timed 1000 (ESC # ''[<0;5;6M'')\<rparr> =
     (Event \<lparr>ev_x = 5, ev_y = 6, ev_button = 0, ev_type = EVT_PRESS,
        ev_t = \<lparr>tv_sec = 0, tv_nsec = 16000\<rparr>\<rparr>,
      \<lparr>clock = 16000, pending = []\<rparr>) \<and>
   read_sgr_event_timeout (- 1) False
       \<lparr>clock = 0, pending = timed 1000 (ESC # ''[<x;1;2m'') @ timed 1000 (ESC # ''[<0;5;6M'')\<rparr> =
     (Event \<lparr>ev_x = 5, ev_y = 6, ev_button = 0, ev_type = EVT_PRESS,
        ev_t = \<lparr>tv_sec = 0, tv_nsec = 18000\<rparr>\<rparr>,
      \<lparr>clock = 18000, pending = []\<rparr>)"
proof -
  have T: "CHR ''M'' = CHR ''M'' \<or> CHR ''M'' = CHR ''m''" "CHR ''m'' = CHR ''M'' \<or> CHR ''m'' = CHR ''m''"
    by simp_all
  have m1: "malformed ''1;2''" and m2: "malformed ''x;1;2''"
    by (simp_all add: malformed_def semicolons_def field1_def after1_def no_number_def
        isspace_def isdigit_def)
  have b1: "map snd (timed 1000 ''1;2'') = ''1;2''" "\<forall>c\<in>set ''1;2''. c \<noteq> CHR ''M'' \<and> c \<noteq> CHR ''m''"
      "length ''1;2'' + 2 < SGR_BUF" "NUL \<notin> set ''1;2''"
    by (simp_all add: timed_def SGR_BUF_def NUL_def)
  have b2: "map snd (timed 1000 ''x;1;2'') = ''x;1;2''" "\<forall>c\<in>set ''x;1;2''. c \<noteq> CHR ''M'' \<and> c \<noteq> CHR ''m''"
      "length ''x;1;2'' + 2 < SGR_BUF" "NUL \<notin> set ''x;1;2''"
    by (simp_all add: timed_def SGR_BUF_def NUL_def)
  have r: "ready (- 1) 1000" by (simp add: ready_def timeval_of_def)
  have v: "(0::nat) \<le> nat INT_MAX" "(5::nat) \<le> nat INT_MAX" "(6::nat) \<le> nat INT_MAX"
    by (simp_all add: INT_MAX_def)
  have it: "map snd (timed 1000 (ESC # ''[<0;5;6M'')) = sgr_sequence 0 5 6 (CHR ''M'')"
    by (simp add: decimal_eval timed_def)
  have r': "ready (- 1) (fst (hd (timed 1000 (ESC # ''[<0;5;6M''))))"
    by (simp add: ready_def timeval_of_def)
  note w1 = malformed_sequence_resync [OF T(1) b1 m1 r v T(1) it r',
      of False 0 1000 1000 1000 "[]", THEN conjunct2]
  note w2 = malformed_sequence_resync [OF T(2) b2 m2 r v T(1) it r',
      of False 0 1000 1000 1000 "[]", THEN conjunct2]
  have e1: "read_sgr_event_timeout (- 1) False
       \<lparr>clock = 0, pending = timed 1000 (ESC # ''[<1;2M'') @ timed 1000 (ESC # ''[<0;5;6M'')\<rparr> =
     (Event \<lparr>ev_x = 5, ev_y = 6, ev_button = 0, ev_type = EVT_PRESS,
        ev_t = \<lparr>tv_sec = 0, tv_nsec = 16000\<rparr>\<rparr>,
      \<lparr>clock = 16000, pending = []\<rparr>)"
    using w1 by (simp add: timed_def classify_def clock_gettime_def)
  have e2: "read_sgr_event_timeout (- 1) False
       \<lparr>clock = 0, pending = timed 1000 (ESC # ''[<x;1;2m'') @ timed 1000 (ESC # ''[<0;5;6M'')\<rparr> =
     (Event \<lparr>ev_x = 5, ev_y = 6, ev_button = 0, ev_type = EVT_PRESS,
        ev_t = \<lparr>tv_sec = 0, tv_nsec = 18000\<rparr>\<rparr>,
      \<lparr>clock = 18000, pending = []\<rparr>)"
    using w2 by (simp add: timed_def classify_def clock_gettime_def)
  show ?thesis using m1 m2 e1 e2 by blast
qed

section \<open>Click mode\<close>

lemma presses_press: "e \<in> set (presses tr) \<Longrightarrow> ev_type e = EVT_PRESS"
  by (induction tr rule: presses.induct) (auto split: if_splits)

lemma presses_append: "presses (a @ b) = presses a @ presses b"
  by (induction a rule: presses.induct) auto

lemma events_of_append: "events_of (a @ b) = events_of a @ events_of b"
  by (induction a rule: events_of.induct) auto

lemma near_self: "near e e"
  by (simp add: near_def c_int_def MULTICLICK_RADIUS_def)

lemma near_dist2:
  assumes "small_coords a" and "small_coords b"
  shows "near a b \<longleftrightarrow> dist2 a b \<le> MULTICLICK_RADIUS\<^sup>2"
proof -
  let ?dx = "ev_x a - ev_x b" and ?dy = "ev_y a - ev_y b"
  have dx: "\<bar>?dx\<bar> \<le> 32766" and dy: "\<bar>?dy\<bar> \<le> 32766"
    using assms by (auto simp: small_coords_def)
  have cdx: "c_int ?dx = ?dx" and cdy: "c_int ?dy = ?dy"
    using dx dy by (auto intro!: c_int_id)
  have "?dx * ?dx = \<bar>?dx\<bar> * \<bar>?dx\<bar>" by (simp add: abs_mult_self_eq)
  also have "\<dots> \<le> 32766 * 32766" using dx by (intro mult_mono) auto
  finally have sx: "?dx * ?dx \<le> 1073610756" by simp
  have "?dy * ?dy = \<bar>?dy\<bar> * \<bar>?dy\<bar>" by (simp add: abs_mult_self_eq)
  also have "\<dots> \<le> 32766 * 32766" using dy by (intro mult_mono) auto
  finally have sy: "?dy * ?dy \<le> 1073610756" by simp
  have px: "- 2147483648 \<le> ?dx * ?dx" using zero_le_square [of ?dx] by linarith
  have py: "- 2147483648 \<le> ?dy * ?dy" using zero_le_square [of ?dy] by linarith
  have pxy: "- 2147483648 \<le> ?dx * ?dx + ?dy * ?dy"
    using zero_le_square [of ?dx] zero_le_square [of ?dy] by linarith
  have c1: "c_int (?dx * ?dx) = ?dx * ?dx" using sx px by (intro c_int_id) linarith+
  have c2: "c_int (?dy * ?dy) = ?dy * ?dy" using sy py by (intro c_int_id) linarith+
  have c3: "c_int (?dx * ?dx + ?dy * ?dy) = ?dx * ?dx + ?dy * ?dy"
    using sx sy pxy by (intro c_int_id) linarith+
  show ?thesis
    by (simp add: near_def Let_def cdx cdy c1 c2 c3 dist2_def power2_eq_square)
qed

lemma wait_for_first_press_presses:
  "wait_for_first_press s tr = (Some ev, s', tr') \<Longrightarrow>
     ev_type ev = EVT_PRESS \<and> presses tr' = presses tr @ [ev]"
proof (induction s tr rule: wait_for_first_press.induct)
  case (1 s tr)
  obtain r s1 where rd: "read_sgr_event_timeout (- 1) False s = (r, s1)"
    by (cases "read_sgr_event_timeout (- 1) False s")
  show ?case
  proof (cases r)
    case (Event e)
    show ?thesis
    proof (cases "ev_type e = EVT_PRESS")
      case True
      with "1.prems" rd Event show ?thesis
        by (auto simp: wait_for_first_press.simps [of s tr] presses_append)
    next
      case False
      with "1.prems" rd Event
      have "wait_for_first_press s1 (tr @ [Event e]) = (Some ev, s', tr')"
        by (simp add: wait_for_first_press.simps [of s tr])
      from "1.IH"(1) [OF rd [symmetric] Event False this] False
      show ?thesis by (simp add: presses_append)
    qed
  next
    case Timeout
    with "1.prems" rd
    have "wait_for_first_press s1 (tr @ [Timeout]) = (Some ev, s', tr')"
      by (simp add: wait_for_first_press.simps [of s tr])
    from "1.IH"(2) [OF rd [symmetric] Timeout this]
    show ?thesis by (simp add: presses_append)
  next
    case Terminated
    with "1.prems" rd show ?thesis by (simp add: wait_for_first_press.simps [of s tr])
  next
    case EnterKey
    with "1.prems" rd show ?thesis by (simp add: wait_for_first_press.simps [of s tr])
  qed
qed

lemma click_followups_presses:
  assumes "click_followups N count first last_e s tr = (Some l, s', tr')"
    and "presses tr \<noteq> []" and "hd (presses tr) = first" and "last (presses tr) = last_e"
    and "int (length (presses tr)) = count" and "\<forall>e\<in>set (presses tr). near first e"
  shows "presses tr' \<noteq> [] \<and> hd (presses tr') = first \<and> last (presses tr') = l \<and>
         int (length (presses tr')) = N \<and> (\<forall>e\<in>set (presses tr'). near first e)"
  using assms
proof (induction N count first last_e s tr rule: click_followups.induct)
  case (1 N count first last_e s tr)
  show ?case
  proof (cases "count < N")
    case False
    with "1.prems" show ?thesis
      by (auto simp: click_followups.simps [of N count first last_e s tr] split: if_splits)
  next
    case True
    obtain r s1 where rd: "read_sgr_event_timeout MULTICLICK_MAX_GAP False s = (r, s1)"
      by (cases "read_sgr_event_timeout MULTICLICK_MAX_GAP False s")
    show ?thesis
    proof (cases r)
      case (Event e)
      show ?thesis
      proof (cases "ev_type e \<noteq> EVT_PRESS")
        case np: True
        with "1.prems"(1) rd Event True
        have run: "click_followups N count first last_e s1 (tr @ [Event e]) = (Some l, s', tr')"
          by (simp add: click_followups.simps [of N count first last_e s tr])
        have p: "presses (tr @ [Event e]) = presses tr" using np by (simp add: presses_append)
        show ?thesis
          using "1.IH"(1) [OF True rd [symmetric] Event np run] "1.prems"(2-6) unfolding p
          by simp
      next
        case pr: False
        show ?thesis
        proof (cases "near first e")
          case False
          with "1.prems"(1) rd Event True pr show ?thesis
            by (simp add: click_followups.simps [of N count first last_e s tr])
        next
          case nr: True
          with "1.prems"(1) rd Event True pr
          have run: "click_followups N (count + 1) first e s1 (tr @ [Event e]) = (Some l, s', tr')"
            by (simp add: click_followups.simps [of N count first last_e s tr])
          have p: "presses (tr @ [Event e]) = presses tr @ [e]" using pr by (simp add: presses_append)
          show ?thesis
            using "1.IH"(2) [OF True rd [symmetric] Event pr nr run] "1.prems"(2-6) nr
            unfolding p by simp
        qed
      qed
    next
      case Timeout
      with "1.prems"(1) rd True show ?thesis
        by (simp add: click_followups.simps [of N count first last_e s tr])
    next
      case Terminated
      with "1.prems"(1) rd True show ?thesis
        by (simp add: click_followups.simps [of N count first last_e s tr])
    next
      case EnterKey
      with "1.prems"(1) rd True show ?thesis
        by (simp add: click_followups.simps [of N count first last_e s tr])
    qed
  qed
qed

lemma wait_for_first_press_events:
  "wait_for_first_press s tr = (Some ev, s', tr') \<Longrightarrow> list_all is_event tr \<Longrightarrow>
     list_all is_event tr'"
proof (induction s tr rule: wait_for_first_press.induct)
  case (1 s tr)
  obtain r s1 where rd: "read_sgr_event_timeout (- 1) False s = (r, s1)"
    by (cases "read_sgr_event_timeout (- 1) False s")
  have nt: "r \<noteq> Timeout" using reader_progress [OF rd] by auto
  show ?case
  proof (cases r)
    case (Event e)
    show ?thesis
    proof (cases "ev_type e = EVT_PRESS")
      case True
      with "1.prems" rd Event show ?thesis
        by (auto simp: wait_for_first_press.simps [of s tr])
    next
      case False
      with "1.prems" rd Event
      have "wait_for_first_press s1 (tr @ [Event e]) = (Some ev, s', tr')"
        by (simp add: wait_for_first_press.simps [of s tr])
      from "1.IH"(1) [OF rd [symmetric] Event False this] "1.prems"(2)
      show ?thesis by simp
    qed
  next
    case Timeout
    with nt show ?thesis by simp
  next
    case Terminated
    with "1.prems" rd show ?thesis by (simp add: wait_for_first_press.simps [of s tr])
  next
    case EnterKey
    with "1.prems" rd show ?thesis by (simp add: wait_for_first_press.simps [of s tr])
  qed
qed

lemma click_followups_events:
  "click_followups N count first last_e s tr = (Some l, s', tr') \<Longrightarrow> list_all is_event tr \<Longrightarrow>
     list_all is_event tr'"
proof (induction N count first last_e s tr rule: click_followups.induct)
  case (1 N count first last_e s tr)
  show ?case
  proof (cases "count < N")
    case False
    with "1.prems" show ?thesis
      by (auto simp: click_followups.simps [of N count first last_e s tr] split: if_splits)
  next
    case True
    obtain r s1 where rd: "read_sgr_event_timeout MULTICLICK_MAX_GAP False s = (r, s1)"
      by (cases "read_sgr_event_timeout MULTICLICK_MAX_GAP False s")
    show ?thesis
    proof (cases r)
      case (Event e)
      show ?thesis
      proof (cases "ev_type e \<noteq> EVT_PRESS")
        case np: True
        with "1.prems"(1) rd Event True
        have run: "click_followups N count first last_e s1 (tr @ [Event e]) = (Some l, s', tr')"
          by (simp add: click_followups.simps [of N count first last_e s tr])
        show ?thesis
          using "1.IH"(1) [OF True rd [symmetric] Event np run] "1.prems"(2) by simp
      next
        case pr: False
        show ?thesis
        proof (cases "near first e")
          case False
          with "1.prems"(1) rd Event True pr show ?thesis
            by (simp add: click_followups.simps [of N count first last_e s tr])
        next
          case nr: True
          with "1.prems"(1) rd Event True pr
          have run: "click_followups N (count + 1) first e s1 (tr @ [Event e]) = (Some l, s', tr')"
            by (simp add: click_followups.simps [of N count first last_e s tr])
          show ?thesis
            using "1.IH"(2) [OF True rd [symmetric] Event pr nr run] "1.prems"(2) by simp
        qed
      qed
    next
      case Timeout
      with "1.prems"(1) rd True show ?thesis
        by (simp add: click_followups.simps [of N count first last_e s tr])
    next
      case Terminated
      with "1.prems"(1) rd True show ?thesis
        by (simp add: click_followups.simps [of N count first last_e s tr])
    next
      case EnterKey
      with "1.prems"(1) rd True show ?thesis
        by (simp add: click_followups.simps [of N count first last_e s tr])
    qed
  qed
qed

lemma click_success:
  assumes "handle_click_mode N out_mode_local do_mark_local started_at calloc_ok s = (0, acts, s', tr)"
  shows "list_all is_event tr \<and>
         presses tr \<noteq> [] \<and>
         int (length (presses tr)) = max N 1 \<and>
         (\<forall>e\<in>set (presses tr). near (hd (presses tr)) e) \<and>
         acts = (if do_mark_local
                 then [draw_mark (ev_x (last (presses tr))) (ev_y (last (presses tr)))] else []) @
                [emit_click out_mode_local calloc_ok started_at (last (presses tr))] \<and>
         (N \<le> 1 \<longrightarrow> presses tr = [hd (presses tr)])"
proof -
  obtain o1 s1 tr1 where w: "wait_for_first_press s [] = (o1, s1, tr1)"
    by (cases "wait_for_first_press s []")
  show ?thesis
  proof (cases o1)
    case None
    with assms w show ?thesis by (simp add: handle_click_mode_def)
  next
    case (Some first)
    note fp = wait_for_first_press_presses [OF w [unfolded Some]]
    then have p1: "presses tr1 = [first]" by simp
    have e1: "list_all is_event tr1"
      using wait_for_first_press_events [OF w [unfolded Some]] by simp
    show ?thesis
    proof (cases "1 < N")
      case False
      with assms w Some have "tr = tr1"
          "acts = (if do_mark_local then [draw_mark (ev_x first) (ev_y first)] else []) @
                  [emit_click out_mode_local calloc_ok started_at first]"
        by (auto simp: handle_click_mode_def)
      with p1 e1 False show ?thesis by (simp add: near_self)
    next
      case True
      obtain o2 s2 tr2 where f: "click_followups N 1 first first s1 tr1 = (o2, s2, tr2)"
        by (cases "click_followups N 1 first first s1 tr1")
      show ?thesis
      proof (cases o2)
        case None
        with assms w Some True f show ?thesis by (simp add: handle_click_mode_def)
      next
        case (Some l)
        with assms w \<open>o1 = Some first\<close> True f have e: "tr = tr2"
            "acts = (if do_mark_local then [draw_mark (ev_x l) (ev_y l)] else []) @
                    [emit_click out_mode_local calloc_ok started_at l]"
          by (auto simp: handle_click_mode_def)
        have "presses tr2 \<noteq> [] \<and> hd (presses tr2) = first \<and> last (presses tr2) = l \<and>
              int (length (presses tr2)) = N \<and> (\<forall>e\<in>set (presses tr2). near first e)"
          using click_followups_presses [OF f [unfolded Some]] p1 by (simp add: near_self)
        moreover have "list_all is_event tr2"
          using click_followups_events [OF f [unfolded Some] e1] .
        ultimately show ?thesis using e True by simp
      qed
    qed
  qed
qed

lemma handle_click_failure:
  assumes "handle_click_mode N m mk st c s = (rc, acts, s', tr)" and "rc \<noteq> 0"
  shows "acts = []"
proof -
  obtain o1 s1 tr1 where w: "wait_for_first_press s [] = (o1, s1, tr1)"
    by (cases "wait_for_first_press s []")
  show ?thesis
  proof (cases o1)
    case None
    with assms w show ?thesis by (simp add: handle_click_mode_def)
  next
    case (Some first)
    obtain o2 s2 tr2 where f:
      "(if 1 < N then click_followups N 1 first first s1 tr1 else (Some first, s1, tr1)) = (o2, s2, tr2)"
      by (cases "if 1 < N then click_followups N 1 first first s1 tr1 else (Some first, s1, tr1)")
    show ?thesis
    proof (cases o2)
      case None
      with assms(1) w Some f show ?thesis by (simp add: handle_click_mode_def)
    next
      case (Some l)
      with assms w \<open>o1 = Some first\<close> f show ?thesis by (simp add: handle_click_mode_def)
    qed
  qed
qed

lemmas click_eval =
  handle_click_mode_def wait_for_first_press.simps click_followups.simps near_def
  emit_click_def draw_mark_def print_json_line_def print_json_history_def json_of_def
  type_str_def MULTICLICK_RADIUS_def

subsection \<open>Claims on click mode\<close>

text \<open>
  C4. A multiclick run with required count \<open>N\<close> that succeeds (return value \<open>0\<close>) has got an
  event from every call of the reader, so no wait timed out, and has read exactly \<open>N\<close>
  presses (one when \<open>N \<le> 1\<close>), all of them within the radius of the first one, the anchor.
  What it reports is the last press read, not the anchor: the mark, when marks are on, is
  drawn at the position of the last press, and the one record written carries its \<open>x\<close>,
  \<open>y\<close> and button in every format: the CSV line, the JSON line, and the compact or pretty
  document of mode \<^verbatim>\<open>click\<close> with that press as its only event (the CSV line again when
  the \<^verbatim>\<open>calloc\<close> for the document fails). For \<open>N \<le> 1\<close> the anchor is the only
  press and so the result.
\<close>

theorem click_reports_last_press:
  assumes "handle_click_mode N out_mode_local do_mark_local started_at calloc_ok s = (0, acts, s', tr)"
  shows "list_all is_event tr \<and>
         presses tr \<noteq> [] \<and>
         int (length (presses tr)) = max N 1 \<and>
         (\<forall>e\<in>set (presses tr). near (hd (presses tr)) e) \<and>
         (let l = last (presses tr);
              obj = \<lparr>je_x = ev_x l, je_y = ev_y l, je_button = ev_button l,
                      je_type = ''press'', je_dt = 0\<rparr>;
              csv = CsvLine (ev_x l) (ev_y l) (ev_button l);
              doc = (\<lambda>pretty. JsonDoc \<lparr>jd_pretty = pretty, jd_mode = ''click'',
                      jd_started_at = started_at, jd_duration = 0, jd_outputs = 1,
                      jd_events = [obj]\<rparr>)
          in acts = (if do_mark_local then [DrawMark (ev_x l) (ev_y l)] else []) @
                    [case out_mode_local of
                       OUT_CSV \<Rightarrow> csv
                     | OUT_JSONL \<Rightarrow> JsonLine obj
                     | OUT_JSON \<Rightarrow> if calloc_ok then doc False else csv
                     | OUT_PRETTY \<Rightarrow> if calloc_ok then doc True else csv]) \<and>
         (N \<le> 1 \<longrightarrow> presses tr = [hd (presses tr)])"
proof -
  note cs = click_success [OF assms]
  from cs have ne: "presses tr \<noteq> []" by blast
  then have "last (presses tr) \<in> set (presses tr)" by simp
  then have press: "ev_type (last (presses tr)) = EVT_PRESS" by (rule presses_press)
  from cs have acts: "acts = (if do_mark_local
      then [draw_mark (ev_x (last (presses tr))) (ev_y (last (presses tr)))] else []) @
      [emit_click out_mode_local calloc_ok started_at (last (presses tr))]" by blast
  have out: "(let l = last (presses tr);
              obj = \<lparr>je_x = ev_x l, je_y = ev_y l, je_button = ev_button l,
                      je_type = ''press'', je_dt = 0\<rparr>;
              csv = CsvLine (ev_x l) (ev_y l) (ev_button l);
              doc = (\<lambda>pretty. JsonDoc \<lparr>jd_pretty = pretty, jd_mode = ''click'',
                      jd_started_at = started_at, jd_duration = 0, jd_outputs = 1,
                      jd_events = [obj]\<rparr>)
          in acts = (if do_mark_local then [DrawMark (ev_x l) (ev_y l)] else []) @
                    [case out_mode_local of
                       OUT_CSV \<Rightarrow> csv
                     | OUT_JSONL \<Rightarrow> JsonLine obj
                     | OUT_JSON \<Rightarrow> if calloc_ok then doc False else csv
                     | OUT_PRETTY \<Rightarrow> if calloc_ok then doc True else csv])"
    unfolding acts Let_def
    by (cases out_mode_local)
      (simp_all add: emit_click_def draw_mark_def print_json_line_def print_json_history_def
        json_of_def type_str_def press)
  from cs out show ?thesis by blast
qed

theorem click_reports_last_press_witness:
  "handle_click_mode 3 OUT_CSV True [] True
     \<lparr>clock = 0, pending = timed 1000
        (ESC # ''[<0;10;10M'' @ ESC # ''[<0;11;10M'' @ ESC # ''[<0;10;11M'')\<rparr> =
     (0, [DrawMark 10 11, CsvLine 10 11 0], \<lparr>clock = 33000, pending = []\<rparr>,
      [Event \<lparr>ev_x = 10, ev_y = 10, ev_button = 0, ev_type = EVT_PRESS,
         ev_t = \<lparr>tv_sec = 0, tv_nsec = 11000\<rparr>\<rparr>,
       Event \<lparr>ev_x = 11, ev_y = 10, ev_button = 0, ev_type = EVT_PRESS,
         ev_t = \<lparr>tv_sec = 0, tv_nsec = 22000\<rparr>\<rparr>,
       Event \<lparr>ev_x = 10, ev_y = 11, ev_button = 0, ev_type = EVT_PRESS,
         ev_t = \<lparr>tv_sec = 0, tv_nsec = 33000\<rparr>\<rparr>]) \<and>
   fst (snd (handle_click_mode 3 OUT_JSON False ''T'' True
     \<lparr>clock = 0, pending = timed 1000
        (ESC # ''[<0;10;10M'' @ ESC # ''[<0;11;10M'' @ ESC # ''[<2;10;11M'')\<rparr>)) =
     [JsonDoc \<lparr>jd_pretty = False, jd_mode = ''click'', jd_started_at = ''T'', jd_duration = 0,
        jd_outputs = 1,
        jd_events = [\<lparr>je_x = 10, je_y = 11, je_button = 2, je_type = ''press'', je_dt = 0\<rparr>]\<rparr>] \<and>
   fst (snd (handle_click_mode 3 OUT_PRETTY False ''T'' True
     \<lparr>clock = 0, pending = timed 1000
        (ESC # ''[<0;10;10M'' @ ESC # ''[<0;11;10M'' @ ESC # ''[<2;10;11M'')\<rparr>)) =
     [JsonDoc \<lparr>jd_pretty = True, jd_mode = ''click'', jd_started_at = ''T'', jd_duration = 0,
        jd_outputs = 1,
        jd_events = [\<lparr>je_x = 10, je_y = 11, je_button = 2, je_type = ''press'', je_dt = 0\<rparr>]\<rparr>] \<and>
   fst (snd (handle_click_mode 3 OUT_JSONL False ''T'' True
     \<lparr>clock = 0, pending = timed 1000
        (ESC # ''[<0;10;10M'' @ ESC # ''[<0;11;10M'' @ ESC # ''[<2;10;11M'')\<rparr>)) =
     [JsonLine \<lparr>je_x = 10, je_y = 11, je_button = 2, je_type = ''press'', je_dt = 0\<rparr>] \<and>
   handle_click_mode 1 OUT_CSV False [] True
     \<lparr>clock = 0, pending = timed 1000 (ESC # ''[<0;10;10M'' @ ESC # ''[<0;11;10M'')\<rparr> =
     (0, [CsvLine 10 10 0],
      \<lparr>clock = 11000, pending = timed 1000 (ESC # ''[<0;11;10M'')\<rparr>,
      [Event \<lparr>ev_x = 10, ev_y = 10, ev_button = 0, ev_type = EVT_PRESS,
         ev_t = \<lparr>tv_sec = 0, tv_nsec = 11000\<rparr>\<rparr>])"
proof -
  let ?e1 = "\<lparr>ev_x = 10, ev_y = 10, ev_button = 0, ev_type = EVT_PRESS,
         ev_t = \<lparr>tv_sec = 0, tv_nsec = 11000\<rparr>\<rparr>"
  let ?e2 = "\<lparr>ev_x = 11, ev_y = 10, ev_button = 0, ev_type = EVT_PRESS,
         ev_t = \<lparr>tv_sec = 0, tv_nsec = 22000\<rparr>\<rparr>"
  let ?e3 = "\<lparr>ev_x = 10, ev_y = 11, ev_button = 0, ev_type = EVT_PRESS,
         ev_t = \<lparr>tv_sec = 0, tv_nsec = 33000\<rparr>\<rparr>"
  let ?e4 = "\<lparr>ev_x = 10, ev_y = 11, ev_button = 2, ev_type = EVT_PRESS,
         ev_t = \<lparr>tv_sec = 0, tv_nsec = 33000\<rparr>\<rparr>"
  let ?s2 = "\<lparr>clock = 0, pending = timed 1000
        (ESC # ''[<0;10;10M'' @ ESC # ''[<0;11;10M'' @ ESC # ''[<2;10;11M'')\<rparr>"
  obtain acts s' tr where run3:
    "handle_click_mode 3 OUT_CSV True [] True
       \<lparr>clock = 0, pending = timed 1000
          (ESC # ''[<0;10;10M'' @ ESC # ''[<0;11;10M'' @ ESC # ''[<0;10;11M'')\<rparr> =
       (0, acts, s', tr)"
    and s': "s' = \<lparr>clock = 33000, pending = []\<rparr>"
    and tr: "tr = [Event ?e1, Event ?e2, Event ?e3]"
    by (simp add: click_eval decoder_eval)
  have acts: "acts = [DrawMark 10 11, CsvLine 10 11 0]"
    using click_reports_last_press [OF run3] by (simp add: tr)
  obtain actsj sj trj where runj:
    "handle_click_mode 3 OUT_JSON False ''T'' True ?s2 = (0, actsj, sj, trj)"
    and trj: "trj = [Event ?e1, Event ?e2, Event ?e4]"
    by (simp add: click_eval decoder_eval)
  have actsj: "actsj = [JsonDoc \<lparr>jd_pretty = False, jd_mode = ''click'', jd_started_at = ''T'',
        jd_duration = 0, jd_outputs = 1,
        jd_events = [\<lparr>je_x = 10, je_y = 11, je_button = 2, je_type = ''press'', je_dt = 0\<rparr>]\<rparr>]"
    using click_reports_last_press [OF runj] by (simp add: trj)
  obtain actsp sp trp where runp:
    "handle_click_mode 3 OUT_PRETTY False ''T'' True ?s2 = (0, actsp, sp, trp)"
    and trp: "trp = [Event ?e1, Event ?e2, Event ?e4]"
    by (simp add: click_eval decoder_eval)
  have actsp: "actsp = [JsonDoc \<lparr>jd_pretty = True, jd_mode = ''click'', jd_started_at = ''T'',
        jd_duration = 0, jd_outputs = 1,
        jd_events = [\<lparr>je_x = 10, je_y = 11, je_button = 2, je_type = ''press'', je_dt = 0\<rparr>]\<rparr>]"
    using click_reports_last_press [OF runp] by (simp add: trp)
  obtain actsl sl trl where runl:
    "handle_click_mode 3 OUT_JSONL False ''T'' True ?s2 = (0, actsl, sl, trl)"
    and trl: "trl = [Event ?e1, Event ?e2, Event ?e4]"
    by (simp add: click_eval decoder_eval)
  have actsl: "actsl = [JsonLine \<lparr>je_x = 10, je_y = 11, je_button = 2, je_type = ''press'', je_dt = 0\<rparr>]"
    using click_reports_last_press [OF runl] by (simp add: trl)
  obtain acts1 s1 tr1 where run1:
    "handle_click_mode 1 OUT_CSV False [] True
       \<lparr>clock = 0, pending = timed 1000 (ESC # ''[<0;10;10M'' @ ESC # ''[<0;11;10M'')\<rparr> =
       (0, acts1, s1, tr1)"
    and s1: "s1 = \<lparr>clock = 11000, pending = timed 1000 (ESC # ''[<0;11;10M'')\<rparr>"
    and tr1: "tr1 = [Event ?e1]"
    by (simp add: click_eval decoder_eval)
  have acts1: "acts1 = [CsvLine 10 10 0]"
    using click_reports_last_press [OF run1] by (simp add: tr1)
  show ?thesis
    using run3 run1 unfolding s' tr acts s1 tr1 acts1 runj actsj runp actsp runl actsl by simp
qed

text \<open>
  One round of the loop of lines 385--403. While the loop waits for a follow-up member
  (\<open>count < N\<close>), the result of the next call of the reader, made with the gap timeout,
  decides: a timeout, Enter or the end of the source is a failure; an event that is not a
  press leaves \<open>count\<close>, the anchor and the last candidate as they are, and the loop goes on
  from the state after that event, where the next call waits for the whole gap again: a
  byte is in time when it arrives at most half a second after the call starts, whatever
  the clock shows, and a byte that arrives later makes the call return after exactly half
  a second with a timeout. For coordinates within \<open>\<plusminus> 16383\<close>, where the \<^verbatim>\<open>int\<close> arithmetic
  of the distance does not overflow, a press whose squared distance to the anchor exceeds
  the squared radius is a failure, and a press within the radius makes the count
  \<open>count + 1\<close> and becomes the last candidate. (\<open>None\<close> is the failure: \<^verbatim>\<open>handle_click_mode\<close>
  returns \<open>1\<close> and prints nothing.)
\<close>

lemma click_followups_step:
  assumes "count < N"
    and "read_sgr_event_timeout MULTICLICK_MAX_GAP False s = (r, s')"
    and "small_coords first"
  shows "(r = Timeout \<or> r = EnterKey \<or> r = Terminated \<longrightarrow>
            click_followups N count first last_e s tr = (None, s', tr @ [r])) \<and>
         (\<forall>ev. r = Event ev \<and> small_coords ev \<and> ev_type ev = EVT_PRESS \<and>
               MULTICLICK_RADIUS\<^sup>2 < dist2 first ev \<longrightarrow>
            click_followups N count first last_e s tr = (None, s', tr @ [r])) \<and>
         (\<forall>ev. r = Event ev \<and> ev_type ev \<noteq> EVT_PRESS \<longrightarrow>
            click_followups N count first last_e s tr =
              click_followups N count first last_e s' (tr @ [r])) \<and>
         (\<forall>ev. r = Event ev \<and> small_coords ev \<and> ev_type ev = EVT_PRESS \<and>
               dist2 first ev \<le> MULTICLICK_RADIUS\<^sup>2 \<longrightarrow>
            click_followups N count first last_e s tr =
              click_followups N (count + 1) first ev s' (tr @ [r])) \<and>
         (\<forall>d. ready MULTICLICK_MAX_GAP d \<longleftrightarrow> d \<le> 500000000) \<and>
         (\<forall>d c rest. pending s = (d, c) # rest \<and> 500000000 < d \<longrightarrow>
            r = Timeout \<and>
            s' = \<lparr>clock = clock s + 500000000, pending = (d - 500000000, c) # rest\<rparr>)"
proof -
  have gap: "\<forall>d. ready MULTICLICK_MAX_GAP d \<longleftrightarrow> d \<le> 500000000"
    by (simp add: ready_def timeval_of_gap timeval_ns_def)
  have late: "\<forall>d c rest. pending s = (d, c) # rest \<and> 500000000 < d \<longrightarrow>
      r = Timeout \<and>
      s' = \<lparr>clock = clock s + 500000000, pending = (d - 500000000, c) # rest\<rparr>"
  proof (intro allI impI)
    fix d c rest
    assume h: "pending s = (d, c) # rest \<and> 500000000 < d"
    then have s: "s = \<lparr>clock = clock s, pending = (d, c) # rest\<rparr>" by simp
    from h gap have "\<not> ready MULTICLICK_MAX_GAP d" by simp
    from reader_timeout [OF this, of False "clock s" c rest] assms(2)
    show "r = Timeout \<and>
      s' = \<lparr>clock = clock s + 500000000, pending = (d - 500000000, c) # rest\<rparr>"
      unfolding s [symmetric] by (simp add: timeval_of_gap timeval_ns_def)
  qed
  have far: "\<And>ev. small_coords ev \<Longrightarrow> MULTICLICK_RADIUS\<^sup>2 < dist2 first ev \<Longrightarrow> \<not> near first ev"
    using near_dist2 [OF assms(3)] by simp
  have close: "\<And>ev. small_coords ev \<Longrightarrow> dist2 first ev \<le> MULTICLICK_RADIUS\<^sup>2 \<Longrightarrow> near first ev"
    using near_dist2 [OF assms(3)] by simp
  have "(r = Timeout \<or> r = EnterKey \<or> r = Terminated \<longrightarrow>
            click_followups N count first last_e s tr = (None, s', tr @ [r])) \<and>
         (\<forall>ev. r = Event ev \<and> small_coords ev \<and> ev_type ev = EVT_PRESS \<and>
               MULTICLICK_RADIUS\<^sup>2 < dist2 first ev \<longrightarrow>
            click_followups N count first last_e s tr = (None, s', tr @ [r])) \<and>
         (\<forall>ev. r = Event ev \<and> ev_type ev \<noteq> EVT_PRESS \<longrightarrow>
            click_followups N count first last_e s tr =
              click_followups N count first last_e s' (tr @ [r])) \<and>
         (\<forall>ev. r = Event ev \<and> small_coords ev \<and> ev_type ev = EVT_PRESS \<and>
               dist2 first ev \<le> MULTICLICK_RADIUS\<^sup>2 \<longrightarrow>
            click_followups N count first last_e s tr =
              click_followups N (count + 1) first ev s' (tr @ [r]))"
    using assms(1,2) far close
    by (auto simp: click_followups.simps [of N count first last_e s tr])
  with gap late show ?thesis by blast
qed

text \<open>
  An example of the re-armed gap: after the anchor, a motion 0.4 s later and a press 0.4 s
  after the motion make a double click, while the same press 0.8 s after the anchor with
  nothing between does not. A press that arrives exactly half a second after the anchor
  is in time; one nanosecond later it is not.
\<close>

lemma click_followups_step_example:
  "read_sgr_event_timeout MULTICLICK_MAX_GAP False
     \<lparr>clock = 11000,
      pending = (400000000, ESC) # timed 1000 ''[<35;11;10M'' @
                (400000000, ESC) # timed 1000 ''[<0;10;11M''\<rparr> =
     (Event \<lparr>ev_x = 11, ev_y = 10, ev_button = 35, ev_type = EVT_MOTION,
        ev_t = \<lparr>tv_sec = 0, tv_nsec = 400022000\<rparr>\<rparr>,
      \<lparr>clock = 400022000, pending = (400000000, ESC) # timed 1000 ''[<0;10;11M''\<rparr>) \<and>
   click_followups 2 1
     \<lparr>ev_x = 10, ev_y = 10, ev_button = 0, ev_type = EVT_PRESS,
        ev_t = \<lparr>tv_sec = 0, tv_nsec = 11000\<rparr>\<rparr>
     \<lparr>ev_x = 10, ev_y = 10, ev_button = 0, ev_type = EVT_PRESS,
        ev_t = \<lparr>tv_sec = 0, tv_nsec = 11000\<rparr>\<rparr>
     \<lparr>clock = 11000,
      pending = (400000000, ESC) # timed 1000 ''[<35;11;10M'' @
                (400000000, ESC) # timed 1000 ''[<0;10;11M''\<rparr> [] =
   click_followups 2 1
     \<lparr>ev_x = 10, ev_y = 10, ev_button = 0, ev_type = EVT_PRESS,
        ev_t = \<lparr>tv_sec = 0, tv_nsec = 11000\<rparr>\<rparr>
     \<lparr>ev_x = 10, ev_y = 10, ev_button = 0, ev_type = EVT_PRESS,
        ev_t = \<lparr>tv_sec = 0, tv_nsec = 11000\<rparr>\<rparr>
     \<lparr>clock = 400022000, pending = (400000000, ESC) # timed 1000 ''[<0;10;11M''\<rparr>
     [Event \<lparr>ev_x = 11, ev_y = 10, ev_button = 35, ev_type = EVT_MOTION,
        ev_t = \<lparr>tv_sec = 0, tv_nsec = 400022000\<rparr>\<rparr>] \<and>
   fst (click_followups 2 1
     \<lparr>ev_x = 10, ev_y = 10, ev_button = 0, ev_type = EVT_PRESS,
        ev_t = \<lparr>tv_sec = 0, tv_nsec = 11000\<rparr>\<rparr>
     \<lparr>ev_x = 10, ev_y = 10, ev_button = 0, ev_type = EVT_PRESS,
        ev_t = \<lparr>tv_sec = 0, tv_nsec = 11000\<rparr>\<rparr>
     \<lparr>clock = 400022000, pending = (400000000, ESC) # timed 1000 ''[<0;10;11M''\<rparr>
     [Event \<lparr>ev_x = 11, ev_y = 10, ev_button = 35, ev_type = EVT_MOTION,
        ev_t = \<lparr>tv_sec = 0, tv_nsec = 400022000\<rparr>\<rparr>]) =
     Some \<lparr>ev_x = 10, ev_y = 11, ev_button = 0, ev_type = EVT_PRESS,
        ev_t = \<lparr>tv_sec = 0, tv_nsec = 800032000\<rparr>\<rparr> \<and>
   fst (click_followups 2 1
     \<lparr>ev_x = 10, ev_y = 10, ev_button = 0, ev_type = EVT_PRESS,
        ev_t = \<lparr>tv_sec = 0, tv_nsec = 11000\<rparr>\<rparr>
     \<lparr>ev_x = 10, ev_y = 10, ev_button = 0, ev_type = EVT_PRESS,
        ev_t = \<lparr>tv_sec = 0, tv_nsec = 11000\<rparr>\<rparr>
     \<lparr>clock = 11000, pending = (800000000, ESC) # timed 1000 ''[<0;10;11M''\<rparr> []) = None \<and>
   fst (click_followups 2 1
     \<lparr>ev_x = 10, ev_y = 10, ev_button = 0, ev_type = EVT_PRESS,
        ev_t = \<lparr>tv_sec = 0, tv_nsec = 11000\<rparr>\<rparr>
     \<lparr>ev_x = 10, ev_y = 10, ev_button = 0, ev_type = EVT_PRESS,
        ev_t = \<lparr>tv_sec = 0, tv_nsec = 11000\<rparr>\<rparr>
     \<lparr>clock = 11000, pending = (500000000, ESC) # timed 1000 ''[<0;10;11M''\<rparr> []) =
     Some \<lparr>ev_x = 10, ev_y = 11, ev_button = 0, ev_type = EVT_PRESS,
        ev_t = \<lparr>tv_sec = 0, tv_nsec = 500021000\<rparr>\<rparr> \<and>
   click_followups 2 1
     \<lparr>ev_x = 10, ev_y = 10, ev_button = 0, ev_type = EVT_PRESS,
        ev_t = \<lparr>tv_sec = 0, tv_nsec = 11000\<rparr>\<rparr>
     \<lparr>ev_x = 10, ev_y = 10, ev_button = 0, ev_type = EVT_PRESS,
        ev_t = \<lparr>tv_sec = 0, tv_nsec = 11000\<rparr>\<rparr>
     \<lparr>clock = 11000, pending = (500000001, ESC) # timed 1000 ''[<0;10;11M''\<rparr> [] =
     (None, \<lparr>clock = 500011000, pending = (1, ESC) # timed 1000 ''[<0;10;11M''\<rparr>, [Timeout])"
proof -
  let ?e1 = "\<lparr>ev_x = 10, ev_y = 10, ev_button = 0, ev_type = EVT_PRESS,
         ev_t = \<lparr>tv_sec = 0, tv_nsec = 11000\<rparr>\<rparr>"
  let ?m = "\<lparr>ev_x = 11, ev_y = 10, ev_button = 35, ev_type = EVT_MOTION,
        ev_t = \<lparr>tv_sec = 0, tv_nsec = 400022000\<rparr>\<rparr>"
  let ?s = "\<lparr>clock = 11000,
      pending = (400000000, ESC) # timed 1000 ''[<35;11;10M'' @
                (400000000, ESC) # timed 1000 ''[<0;10;11M''\<rparr>"
  let ?s' = "\<lparr>clock = 400022000, pending = (400000000, ESC) # timed 1000 ''[<0;10;11M''\<rparr>"
  have h1: "(1::int) < 2" by simp
  have h2: "read_sgr_event_timeout MULTICLICK_MAX_GAP False ?s = (Event ?m, ?s')"
    by (simp add: decoder_eval)
  have h3: "small_coords ?e1" by (simp add: small_coords_def)
  have step: "click_followups 2 1 ?e1 ?e1 ?s [] = click_followups 2 1 ?e1 ?e1 ?s' ([] @ [Event ?m])"
    using click_followups_step [OF h1 h2 h3, of ?e1 "[]"] by simp
  have fin: "fst (click_followups 2 1 ?e1 ?e1 ?s' [Event ?m]) =
      Some \<lparr>ev_x = 10, ev_y = 11, ev_button = 0, ev_type = EVT_PRESS,
        ev_t = \<lparr>tv_sec = 0, tv_nsec = 800032000\<rparr>\<rparr>"
    by (simp add: click_eval decoder_eval)
  have late: "fst (click_followups 2 1 ?e1 ?e1
      \<lparr>clock = 11000, pending = (800000000, ESC) # timed 1000 ''[<0;10;11M''\<rparr> []) = None"
    by (simp add: click_eval decoder_eval)
  have edge: "fst (click_followups 2 1 ?e1 ?e1
      \<lparr>clock = 11000, pending = (500000000, ESC) # timed 1000 ''[<0;10;11M''\<rparr> []) =
      Some \<lparr>ev_x = 10, ev_y = 11, ev_button = 0, ev_type = EVT_PRESS,
        ev_t = \<lparr>tv_sec = 0, tv_nsec = 500021000\<rparr>\<rparr>"
    by (simp add: click_eval decoder_eval)
  have over: "click_followups 2 1 ?e1 ?e1
      \<lparr>clock = 11000, pending = (500000001, ESC) # timed 1000 ''[<0;10;11M''\<rparr> [] =
      (None, \<lparr>clock = 500011000, pending = (1, ESC) # timed 1000 ''[<0;10;11M''\<rparr>, [Timeout])"
    by (simp add: click_eval decoder_eval)
  show ?thesis using h2 step fin late edge over by simp
qed

text \<open>
  C5. A press whose squared distance to the anchor exceeds the squared radius is to end
  the run in failure. The distance is computed in \<^verbatim>\<open>int\<close> (lines 393 and 394), and for a
  press 65536 columns from the anchor the square wraps to \<open>0\<close>: with \<^verbatim>\<open>-c 2\<close>, an anchor at
  \<open>(1, 1)\<close> and a press at \<open>(65537, 1)\<close>, whose squared distance \<open>2^32\<close> exceeds the squared
  radius \<open>9\<close>, the run succeeds and reports the far press. From 46341 columns on the sum
  wraps to a negative number, which is within the radius as well.
\<close>

theorem multiclick_far_press_accepted:
  "handle_click_mode 2 OUT_CSV False [] True
     \<lparr>clock = 0, pending = timed 1000 (ESC # ''[<0;1;1M'' @ ESC # ''[<0;65537;1M'')\<rparr> =
     (0, [CsvLine 65537 1 0], \<lparr>clock = 22000, pending = []\<rparr>,
      [Event \<lparr>ev_x = 1, ev_y = 1, ev_button = 0, ev_type = EVT_PRESS,
         ev_t = \<lparr>tv_sec = 0, tv_nsec = 9000\<rparr>\<rparr>,
       Event \<lparr>ev_x = 65537, ev_y = 1, ev_button = 0, ev_type = EVT_PRESS,
         ev_t = \<lparr>tv_sec = 0, tv_nsec = 22000\<rparr>\<rparr>]) \<and>
   dist2 \<lparr>ev_x = 1, ev_y = 1, ev_button = 0, ev_type = EVT_PRESS,
           ev_t = \<lparr>tv_sec = 0, tv_nsec = 9000\<rparr>\<rparr>
         \<lparr>ev_x = 65537, ev_y = 1, ev_button = 0, ev_type = EVT_PRESS,
           ev_t = \<lparr>tv_sec = 0, tv_nsec = 22000\<rparr>\<rparr> = 4294967296 \<and>
   MULTICLICK_RADIUS\<^sup>2 = 9 \<and>
   fst (handle_click_mode 2 OUT_CSV False [] True
     \<lparr>clock = 0, pending = timed 1000 (ESC # ''[<0;1;1M'' @ ESC # ''[<0;46342;1M'')\<rparr>) = 0 \<and>
   fst (handle_click_mode 2 OUT_CSV False [] True
     \<lparr>clock = 0, pending = timed 1000 (ESC # ''[<0;1;1M'' @ ESC # ''[<0;5;1M'')\<rparr>) = 1"
  by (simp add: click_eval decoder_eval dist2_def)

section \<open>Output\<close>

lemma fold_count:
  "fold (\<lambda>x n. if P x then n + 1 else n) xs (k::nat) = k + length (filter P xs)"
  by (induction xs arbitrary: k) auto

lemma type_str_press: "type_str t = ''press'' \<longleftrightarrow> t = EVT_PRESS"
  by (cases t) (simp_all add: type_str_def)

lemma je_type_json_of: "je_type (json_of e dt) = ''press'' \<longleftrightarrow> ev_type e = EVT_PRESS"
  by (simp add: json_of_def type_str_press)

lemma filter_press_map:
  "length (filter (\<lambda>j. je_type j = ''press'') (map (\<lambda>oe. json_of (oe_ev oe) (oe_dt oe)) outs)) =
   length (filter (\<lambda>oe. ev_type (oe_ev oe) = EVT_PRESS) outs)"
  by (induction outs) (auto simp: je_type_json_of)

lemma filter_press_events_with_dt:
  "length (filter (\<lambda>j. je_type j = ''press'') (events_with_dt prev events)) =
   length (filter (\<lambda>e. ev_type e = EVT_PRESS) events)"
  by (induction events arbitrary: prev) (auto simp: je_type_json_of)

lemma length_events_with_dt: "length (events_with_dt prev events) = length events"
  by (induction events arbitrary: prev) auto

subsection \<open>Rounding to a double\<close>

text \<open>
  The binary exponent is the right one, so rounding moves a number \<open>x < 2^53\<close> no further
  than to the next integer, and leaves no double between \<open>2^64 - 2048\<close> and \<open>2^64\<close>.
\<close>

lemma pow2_powi: "pow2 k = power_int 2 k"
  by (simp add: pow2_def power_int_def inverse_eq_divide power_one_over)

lemma pow2_pos: "0 < pow2 k"
  by (simp add: pow2_def)

lemma pow2_add: "pow2 (a + b) = pow2 a * pow2 b"
  by (simp add: pow2_powi power_int_add)

lemma pow2_nat: "0 \<le> k \<Longrightarrow> pow2 k = 2 ^ nat k"
  by (simp add: pow2_def)

lemma pow2_mono: "a \<le> b \<Longrightarrow> pow2 a \<le> pow2 b"
  by (simp add: pow2_powi power_int_increasing)

lemma bit_length_nonneg: "0 \<le> bit_length n"
  by (induction n rule: bit_length.induct) (subst bit_length.simps, simp)

lemma bit_length_bounds:
  "0 < n \<Longrightarrow> 2 ^ nat (bit_length n - 1) \<le> n \<and> n < 2 ^ nat (bit_length n)"
proof (induction n rule: bit_length.induct)
  case (1 n)
  then have n: "0 < n" by simp
  have bl: "bit_length n = bit_length (n div 2) + 1"
    using n by (subst bit_length.simps) simp
  show ?case
  proof (cases "n div 2 = 0")
    case True
    then have "n = 1" using n by linarith
    then show ?thesis by (simp add: bit_length.simps [of 1] bit_length.simps [of 0])
  next
    case False
    then have h: "0 < n div 2" using n by linarith
    from 1(1) [OF _ h] n
    have a: "2 ^ nat (bit_length (n div 2) - 1) \<le> n div 2"
      and b: "n div 2 < 2 ^ nat (bit_length (n div 2))" by auto
    have pos: "1 \<le> bit_length (n div 2)"
      using h bit_length_nonneg [of "n div 2 div 2"]
      by (subst bit_length.simps) simp
    have e1: "nat (bit_length n - 1) = Suc (nat (bit_length (n div 2) - 1))"
      unfolding bl using pos by simp
    have e2: "nat (bit_length n) = Suc (nat (bit_length (n div 2)))"
      unfolding bl using pos by simp
    have "2 * 2 ^ nat (bit_length (n div 2) - 1) \<le> n" using a by linarith
    moreover have "n < 2 * 2 ^ nat (bit_length (n div 2))" using b by linarith
    ultimately show ?thesis unfolding e1 e2 by simp
  qed
qed

lemma bit_length_pos: "0 < n \<Longrightarrow> 1 \<le> bit_length n"
  using bit_length_nonneg [of "n div 2"] by (subst bit_length.simps) simp

lemma bit_length_rat:
  assumes "0 < n"
  shows "pow2 (bit_length n - 1) \<le> of_int n" and "of_int n < pow2 (bit_length n)"
proof -
  from bit_length_bounds [OF assms]
  have "rat_of_int (2 ^ nat (bit_length n - 1)) \<le> of_int n"
    and "rat_of_int n < of_int (2 ^ nat (bit_length n))"
    by (simp_all only: of_int_le_iff of_int_less_iff)
  then show "pow2 (bit_length n - 1) \<le> of_int n" and "of_int n < pow2 (bit_length n)"
    using bit_length_pos [OF assms] by (simp_all add: pow2_nat)
qed

lemma pow2_diff: "pow2 (a - b) = pow2 a / pow2 b"
  by (simp add: pow2_powi power_int_diff)

lemma ilog2_upper:
  assumes "0 < x"
  shows "x < pow2 (ilog2 x + 1)"
proof -
  obtain p q where pq: "quotient_of x = (p, q)" by (cases "quotient_of x")
  have q: "0 < q" using pq quotient_of_denom_pos by blast
  have x: "x = of_int p / of_int q" using pq by (rule quotient_of_div)
  have p: "0 < p" using assms q unfolding x by (simp add: zero_less_divide_iff)
  let ?k = "bit_length p - bit_length q"
  show ?thesis
  proof (cases "pow2 ?k \<le> x")
    case True
    then have il: "ilog2 x = ?k" by (simp add: ilog2_def pq)
    have "x < pow2 (bit_length p) / pow2 (bit_length q - 1)"
      unfolding x using bit_length_rat(2) [OF p] bit_length_rat(1) [OF q] p pow2_pos
      by (intro frac_less) simp_all
    also have "\<dots> = pow2 (?k + 1)"
      by (simp flip: pow2_diff add: algebra_simps)
    finally show ?thesis unfolding il .
  next
    case False
    then have "ilog2 x = ?k - 1" by (simp add: ilog2_def pq)
    with False show ?thesis by simp
  qed
qed

lemma ilog2_lower:
  assumes "0 < x"
  shows "pow2 (ilog2 x) \<le> x"
proof -
  obtain p q where pq: "quotient_of x = (p, q)" by (cases "quotient_of x")
  have q: "0 < q" using pq quotient_of_denom_pos by blast
  have x: "x = of_int p / of_int q" using pq by (rule quotient_of_div)
  have p: "0 < p" using assms q unfolding x by (simp add: zero_less_divide_iff)
  let ?k = "bit_length p - bit_length q"
  show ?thesis
  proof (cases "pow2 ?k \<le> x")
    case True
    then show ?thesis by (simp add: ilog2_def pq)
  next
    case False
    then have il: "ilog2 x = ?k - 1" by (simp add: ilog2_def pq)
    have "pow2 (?k - 1) = pow2 (bit_length p - 1) / pow2 (bit_length q)"
      by (simp flip: pow2_diff add: algebra_simps)
    also have "\<dots> \<le> x"
      unfolding x using bit_length_rat(1) [OF p] bit_length_rat(2) [OF q] p q pow2_pos
      by (intro frac_le) (simp_all add: less_imp_le)
    finally show ?thesis unfolding il .
  qed
qed

lemma round_even_le: "m \<le> of_int K \<Longrightarrow> round_even m \<le> K"
  unfolding round_even_def Let_def
  by (auto simp: le_floor_iff floor_le_iff)

lemma round_even_ge: "of_int K \<le> m \<Longrightarrow> K \<le> round_even m"
proof -
  assume "of_int K \<le> m"
  then have "K \<le> \<lfloor>m\<rfloor>" by (simp add: le_floor_iff)
  then show ?thesis unfolding round_even_def Let_def by auto
qed

lemma round_double_grid:
  assumes "0 \<le> x" and "round_double x < 2 ^ 64"
  shows "round_double x \<le> 2 ^ 64 - 2048"
proof (cases "x = 0")
  case True
  then show ?thesis by (simp add: round_double_def)
next
  case False
  with assms have x: "0 < x" by simp
  define e where "e = max (ilog2 x - 52) (- 1074)"
  define n where "n = round_even (x / pow2 e)"
  have r: "round_double x = of_int n * pow2 e"
    using x by (simp add: round_double_def e_def n_def Let_def)
  show ?thesis
  proof (cases "11 \<le> e")
    case True
    have "pow2 e = pow2 (e - 11) * pow2 11" by (simp flip: pow2_add)
    also have "\<dots> = of_int (2 ^ nat (e - 11)) * 2048"
      using True by (simp add: pow2_nat)
    finally have pe: "pow2 e = of_int (2 ^ nat (e - 11)) * 2048" .
    have "rat_of_int (n * 2 ^ nat (e - 11)) * 2048 < 2 ^ 64"
      using assms(2) unfolding r pe by (simp add: mult.assoc)
    then have "rat_of_int (n * 2 ^ nat (e - 11)) < of_int (2 ^ 53)" by simp
    then have "n * 2 ^ nat (e - 11) < 2 ^ 53" by (simp only: of_int_less_iff)
    then have "n * 2 ^ nat (e - 11) \<le> 2 ^ 53 - 1" by simp
    then have "rat_of_int (n * 2 ^ nat (e - 11)) \<le> of_int (2 ^ 53 - 1)"
      by (simp only: of_int_le_iff)
    then have "rat_of_int (n * 2 ^ nat (e - 11)) * 2048 \<le> 2 ^ 64 - 2048" by simp
    then show ?thesis unfolding r pe by (simp add: mult.assoc)
  next
    case False
    then have "ilog2 x + 1 \<le> 63" unfolding e_def by simp
    then have "pow2 (ilog2 x + 1) \<le> pow2 63" by (rule pow2_mono)
    with ilog2_upper [OF x] have x63: "x < pow2 63" by simp
    have "pow2 63 = pow2 (63 - e) * pow2 e" by (simp flip: pow2_add)
    also have "pow2 (63 - e) = of_int (2 ^ nat (63 - e))"
      using False by (simp add: pow2_nat)
    finally have p63: "pow2 63 = of_int (2 ^ nat (63 - e)) * pow2 e" .
    have "x / pow2 e \<le> of_int (2 ^ nat (63 - e))"
      using x63 pow2_pos [of e] unfolding p63 by (simp add: field_simps)
    then have "n \<le> 2 ^ nat (63 - e)" unfolding n_def by (rule round_even_le)
    then have "rat_of_int n \<le> of_int (2 ^ nat (63 - e))" by (simp only: of_int_le_iff)
    then have "rat_of_int n * pow2 e \<le> pow2 63"
      unfolding p63 using pow2_pos [of e] by (simp add: mult_right_mono)
    then show ?thesis unfolding r by (simp add: pow2_nat)
  qed
qed

lemma round_double_small:
  assumes "0 \<le> x" and "x < 2 ^ 53"
  shows "of_int \<lfloor>x\<rfloor> \<le> round_double x \<and> round_double x \<le> of_int \<lfloor>x\<rfloor> + 1"
proof (cases "x = 0")
  case True
  then show ?thesis by (simp add: round_double_def)
next
  case False
  with assms have x: "0 < x" by simp
  define e where "e = max (ilog2 x - 52) (- 1074)"
  define n where "n = round_even (x / pow2 e)"
  define j where "j = nat (- e)"
  have r: "round_double x = of_int n * pow2 e"
    using x by (simp add: round_double_def e_def n_def Let_def)
  have "ilog2 x \<le> 52"
  proof (rule ccontr)
    assume "\<not> ilog2 x \<le> 52"
    then have "pow2 53 \<le> pow2 (ilog2 x)" by (intro pow2_mono) simp
    with ilog2_lower [OF x] assms(2) show False by (simp add: pow2_nat)
  qed
  then have e0: "e \<le> 0" unfolding e_def by simp
  then have pe: "pow2 e = 1 / 2 ^ j" unfolding j_def pow2_def by auto
  have m: "x / pow2 e = x * 2 ^ j" unfolding pe by simp
  have "of_int (\<lfloor>x\<rfloor> * 2 ^ j) \<le> x * 2 ^ j" by simp
  then have lo: "\<lfloor>x\<rfloor> * 2 ^ j \<le> n" unfolding n_def m by (rule round_even_ge)
  have "x \<le> of_int \<lfloor>x\<rfloor> + 1" by linarith
  then have "x * 2 ^ j \<le> of_int ((\<lfloor>x\<rfloor> + 1) * 2 ^ j)" by simp
  then have hi: "n \<le> (\<lfloor>x\<rfloor> + 1) * 2 ^ j" unfolding n_def m by (rule round_even_le)
  have "rat_of_int (\<lfloor>x\<rfloor> * 2 ^ j) \<le> of_int n" using lo by (simp only: of_int_le_iff)
  then have a: "of_int \<lfloor>x\<rfloor> \<le> round_double x"
    unfolding r pe by (simp add: field_simps)
  have "rat_of_int n \<le> of_int ((\<lfloor>x\<rfloor> + 1) * 2 ^ j)" using hi by (simp only: of_int_le_iff)
  then have b: "round_double x \<le> of_int \<lfloor>x\<rfloor> + 1"
    unfolding r pe by (simp add: field_simps)
  from a b show ?thesis ..
qed

lemma round_double_large:
  assumes "2 ^ 53 \<le> x"
  shows "2 ^ 53 \<le> round_double x"
proof -
  have "(0::rat) < 2 ^ 53" by simp
  with assms have x: "0 < x" by linarith
  define e where "e = max (ilog2 x - 52) (- 1074)"
  define n where "n = round_even (x / pow2 e)"
  have r: "round_double x = of_int n * pow2 e"
    using x by (simp add: round_double_def e_def n_def Let_def)
  have "53 \<le> ilog2 x"
  proof (rule ccontr)
    assume "\<not> 53 \<le> ilog2 x"
    then have "pow2 (ilog2 x + 1) \<le> pow2 53" by (intro pow2_mono) simp
    with ilog2_upper [OF x] assms show False by (simp add: pow2_nat)
  qed
  then have e: "e = ilog2 x - 52" and e1: "1 \<le> e" unfolding e_def by simp_all
  have "pow2 (ilog2 x) = pow2 52 * pow2 e" unfolding e by (simp flip: pow2_add)
  with ilog2_lower [OF x] have "of_int (2 ^ 52) * pow2 e \<le> x" by (simp add: pow2_nat)
  then have "of_int (2 ^ 52) \<le> x / pow2 e" using pow2_pos [of e] by (simp add: field_simps)
  then have "2 ^ 52 \<le> n" unfolding n_def by (rule round_even_ge)
  then have "rat_of_int (2 ^ 52) \<le> of_int n" by (simp only: of_int_le_iff)
  moreover have "pow2 1 \<le> pow2 e" using e1 by (rule pow2_mono)
  ultimately have "of_int (2 ^ 52) * pow2 1 \<le> of_int n * pow2 e"
    using pow2_pos [of 1] by (intro mult_mono) (simp_all add: less_imp_le)
  then show ?thesis unfolding r by (simp add: pow2_nat)
qed

lemma nat_c_trunc: "nat (c_trunc p) = nat \<lfloor>p\<rfloor>"
proof (cases "p < 0")
  case True
  then have "\<lfloor>p\<rfloor> \<le> 0" "0 \<le> \<lfloor>- p\<rfloor>" by (simp_all add: floor_le_iff le_floor_iff)
  with True show ?thesis by (simp add: c_trunc_def)
next
  case False
  then show ?thesis by (simp add: c_trunc_def)
qed

lemma round_double_nonneg: "0 \<le> x \<Longrightarrow> 0 \<le> round_double x"
proof (cases "x = 0")
  case True
  then show ?thesis by (simp add: round_double_def)
next
  case False
  assume "0 \<le> x"
  with False have x: "0 < x" by simp
  define e where "e = max (ilog2 x - 52) (- 1074)"
  have r: "round_double x = of_int (round_even (x / pow2 e)) * pow2 e"
    using x by (simp add: round_double_def e_def Let_def)
  have "rat_of_int 0 \<le> x / pow2 e" using x pow2_pos [of e] by simp
  then have "0 \<le> round_even (x / pow2 e)" by (rule round_even_ge)
  then show ?thesis unfolding r using pow2_pos [of e] by simp
qed

lemma round_double_1000: "round_double 1000 = 1000"
  by code_simp

lemma max_events_of_bounds:
  assumes "0 \<le> d" and "dbl_mul d 1000 < 2 ^ 64"
  shows "max_events_of d = min (nat \<lfloor>dbl_mul d 1000\<rfloor> + 1024) MAX_EVENTS"
    and "1024 \<le> max_events_of d" and "max_events_of d \<le> 65536"
proof -
  let ?p = "dbl_mul d 1000"
  have x0: "0 \<le> round_double d * round_double 1000"
    using round_double_nonneg [OF assms(1)] by (simp add: round_double_1000)
  have "?p \<le> 2 ^ 64 - 2048"
    using round_double_grid [OF x0] assms(2) unfolding dbl_mul_def by simp
  then have "?p \<le> of_int 18446744073709549568" by simp
  then have "\<lfloor>?p\<rfloor> \<le> 18446744073709549568" by (simp only: floor_le_iff)
  then have "nat \<lfloor>?p\<rfloor> + 1024 < 18446744073709551616" by linarith
  then have "nat \<lfloor>?p\<rfloor> + 1024 < 2 ^ 64" by simp
  then show eq: "max_events_of d = min (nat \<lfloor>?p\<rfloor> + 1024) MAX_EVENTS"
    by (simp add: max_events_of_def Let_def nat_c_trunc min_def)
  show "1024 \<le> max_events_of d" unfolding eq by (simp add: MAX_EVENTS_def)
  show "max_events_of d \<le> 65536" unfolding eq by (simp add: MAX_EVENTS_def)
qed

lemma max_events_of_duration:
  assumes "is_double d" and "0 \<le> d" and "dbl_mul d 1000 < 2 ^ 64"
  shows "min (nat \<lfloor>d * 1000\<rfloor> + 1024) MAX_EVENTS \<le> max_events_of d"
    and "max_events_of d \<le> min (nat \<lfloor>d * 1000\<rfloor> + 1025) MAX_EVENTS"
proof -
  let ?p = "dbl_mul d 1000"
  have p: "?p = round_double (d * 1000)"
    using assms(1) by (simp add: dbl_mul_def is_double_def round_double_1000)
  have x0: "0 \<le> d * 1000" using assms(2) by simp
  note eq = max_events_of_bounds(1) [OF assms(2,3)]
  have "min (nat \<lfloor>d * 1000\<rfloor> + 1024) MAX_EVENTS \<le> max_events_of d \<and>
        max_events_of d \<le> min (nat \<lfloor>d * 1000\<rfloor> + 1025) MAX_EVENTS"
  proof (cases "d * 1000 < 2 ^ 53")
    case True
    from round_double_small [OF x0 True]
    have "of_int \<lfloor>d * 1000\<rfloor> \<le> ?p" "?p \<le> of_int (\<lfloor>d * 1000\<rfloor> + 1)"
      unfolding p by simp_all
    then have "\<lfloor>d * 1000\<rfloor> \<le> \<lfloor>?p\<rfloor>" "\<lfloor>?p\<rfloor> \<le> \<lfloor>d * 1000\<rfloor> + 1"
      by (simp_all only: le_floor_iff floor_le_iff)
    then show ?thesis unfolding eq by linarith
  next
    case False
    then have big: "2 ^ 53 \<le> d * 1000" by simp
    from round_double_large [OF big] have "of_int 9007199254740992 \<le> ?p"
      unfolding p by simp
    then have "9007199254740992 \<le> \<lfloor>?p\<rfloor>" by (simp only: le_floor_iff)
    then have A: "65536 \<le> nat \<lfloor>?p\<rfloor> + 1024" by linarith
    from big have "of_int 9007199254740992 \<le> d * 1000" by simp
    then have "9007199254740992 \<le> \<lfloor>d * 1000\<rfloor>" by (simp only: le_floor_iff)
    then have B: "65536 \<le> nat \<lfloor>d * 1000\<rfloor> + 1024" by linarith
    show ?thesis unfolding eq MAX_EVENTS_def using A B by linarith
  qed
  then show "min (nat \<lfloor>d * 1000\<rfloor> + 1024) MAX_EVENTS \<le> max_events_of d"
    and "max_events_of d \<le> min (nat \<lfloor>d * 1000\<rfloor> + 1025) MAX_EVENTS" by simp_all
qed

lemma double_examples:
  "round_double 1 = 1"
  "round_double (29 / 100) = 5224175567749775 / 18014398509481984"
  "round_double (1001 / 1000) = 2254051613498933 / 2251799813685248"
  "c_trunc (dbl_mul 1 1000) = 1000"
  "c_trunc (dbl_mul (5224175567749775 / 18014398509481984) 1000) = 290"
  "c_trunc (dbl_mul (2254051613498933 / 2251799813685248) 1000) = 1000"
  "c_trunc (dbl_mul (29 / 100) 1000) = 290"
  "c_trunc (dbl_mul (1001 / 1000) 1000) = 1000"
  by code_simp+

lemma dbl_mul_one: "dbl_mul 1 1000 = 1000"
  by code_simp

text \<open>
  The capacity for \<^verbatim>\<open>-r 1\<close>, \<^verbatim>\<open>-r 0.29\<close> and \<^verbatim>\<open>-r 1.001\<close>: the double nearest to \<open>0.29\<close> is
  below it and the product is rounded up to \<open>290\<close>; the double nearest to \<open>1.001\<close> is
  above it and the product stays below \<open>1001\<close>.
\<close>

lemma max_events_of_examples:
  "max_events_of 1 = 2024"
  "max_events_of (5224175567749775 / 18014398509481984) = 1314"
  "max_events_of (2254051613498933 / 2251799813685248) = 2024"
  "max_events_of (29 / 100) = 1314"
  "max_events_of (1001 / 1000) = 2024"
  by (simp_all add: max_events_of_def double_examples MAX_EVENTS_def)

section \<open>The main loop\<close>

lemma main_loop_invariant:
  assumes "main_loop cfg alloc_ok max_events rec_start want_motion st = (why, fin)"
    and "I st"
    and "\<And>st st'. I st \<Longrightarrow> main_iter cfg alloc_ok max_events rec_start want_motion st = Inl st' \<Longrightarrow> I st'"
  shows "\<exists>stk. I stk \<and> main_iter cfg alloc_ok max_events rec_start want_motion stk = Inr (why, fin)"
  using assms
proof (induction cfg alloc_ok max_events rec_start want_motion st rule: main_loop.induct)
  case (1 cfg alloc_ok max_events rec_start want_motion st)
  show ?case
  proof (cases "main_iter cfg alloc_ok max_events rec_start want_motion st")
    case (Inl st')
    then have "main_loop cfg alloc_ok max_events rec_start want_motion st' = (why, fin)"
      using "1.prems"(1) by (simp add: main_loop.simps [of cfg alloc_ok max_events rec_start want_motion st])
    moreover have "I st'" using "1.prems"(3) [OF "1.prems"(2) Inl] .
    ultimately show ?thesis using "1.IH" [OF Inl] "1.prems"(3) by blast
  next
    case (Inr f)
    then have "f = (why, fin)"
      using "1.prems"(1) by (simp add: main_loop.simps [of cfg alloc_ok max_events rec_start want_motion st])
    with Inr "1.prems"(2) show ?thesis by blast
  qed
qed

lemma emit_event_fields:
  assumes "emit_event cfg alloc_ok ev st = Inl st2"
  shows "m_trace st2 = m_trace st" "m_tty st2 = m_tty st" "m_events st2 = m_events st"
    "m_outputs st2 = m_outputs st"
    "map oe_ev (m_outs st2) = map oe_ev (m_outs st) @
       (if cfg_out_mode cfg = OUT_JSON \<or> cfg_out_mode cfg = OUT_PRETTY then [ev] else [])"
  using assms by (auto simp: emit_event_def Let_def split: if_splits)

lemma emit_event_alloc:
  "\<forall>n. alloc_ok n \<Longrightarrow> \<exists>st2. emit_event cfg alloc_ok ev st = Inl st2"
  by (simp add: emit_event_def Let_def)

lemma finish_event_cases:
  assumes "finish_event cfg ev st = res"
  shows "\<exists>st'. (res = Inl st' \<or> res = Inr (LimitReached, st')) \<and>
      m_trace st' = m_trace st \<and> m_tty st' = m_tty st \<and> m_events st' = m_events st \<and>
      m_outs st' = m_outs st \<and>
      m_outputs st' = m_outputs st + (if ev_type ev = EVT_PRESS then 1 else 0) \<and>
      (res = Inr (LimitReached, st') \<longleftrightarrow>
         \<not> cfg_infinite cfg \<and> press_limit cfg \<le> m_outputs st' \<and> 0 \<le> cfg_count_limit cfg)"
  using assms
  by (auto simp: finish_event_def Let_def press_limit_def split: if_splits)

lemma handle_event_cases:
  assumes "handle_event cfg alloc_ok ev st = res" and "\<forall>n. alloc_ok n"
  shows "\<exists>st'. (res = Inl st' \<or> res = Inr (LimitReached, st')) \<and>
      m_trace st' = m_trace st \<and> m_tty st' = m_tty st \<and> m_events st' = m_events st \<and>
      m_outputs st' = m_outputs st + (if ev_type ev = EVT_PRESS then 1 else 0) \<and>
      map oe_ev (m_outs st') = map oe_ev (m_outs st) @
        (if cfg_out_mode cfg = OUT_JSON \<or> cfg_out_mode cfg = OUT_PRETTY then [ev] else []) \<and>
      (res = Inr (LimitReached, st') \<longleftrightarrow>
         \<not> cfg_infinite cfg \<and> press_limit cfg \<le> m_outputs st' \<and> 0 \<le> cfg_count_limit cfg)"
proof -
  obtain st2 where e: "emit_event cfg alloc_ok ev st = Inl st2"
    using emit_event_alloc [OF assms(2)] by blast
  have f: "finish_event cfg ev st2 = res" using assms(1) e by (simp add: handle_event_def)
  show ?thesis
    using finish_event_cases [OF f] emit_event_fields [OF e] by (metis (no_types, lifting))
qed

lemma reader_block_no_timeout:
  "read_sgr_event_timeout (- 1) w s = (r, s') \<Longrightarrow> r \<noteq> Timeout"
  using reader_progress [of "- 1" w s r s'] by auto

lemma main_plain:
  assumes "\<not> cfg_click_mode cfg" and "\<not> cfg_record_mode cfg"
    and "main cfg started_at alloc_ok s = (code, acts, why, fin)"
  shows "\<exists>w. why = Some w \<and> code = 0 \<and> acts = m_acts fin @ finish cfg started_at fin \<and>
     main_loop cfg alloc_ok 0 (clock_gettime s)
       (cfg_infinite cfg \<or> cfg_record_mode cfg \<or> 0 < cfg_count_limit cfg) (init_state s) = (w, fin)"
  using assms by (auto simp: main_def Let_def split: prod.splits)

lemma time_diff_ts: "time_diff a b = ts_double a - ts_double b"
  by (simp add: time_diff_def ts_double_def diff_divide_distrib)

lemma take_snoc_cap:
  "(if length (take n xs) < n then take n xs @ [x] else take n xs) = take n (xs @ [x])"
  by (cases "length xs < n") auto

lemma main_record:
  assumes "\<not> cfg_click_mode cfg" and "cfg_record_mode cfg"
    and "alloc_ok (max_events_of (cfg_record_seconds cfg))"
    and "main cfg started_at alloc_ok s = (code, acts, why, fin)"
  shows "\<exists>w. why = Some w \<and> code = 0 \<and> acts = m_acts fin @ finish cfg started_at fin \<and>
     main_loop cfg alloc_ok (max_events_of (cfg_record_seconds cfg)) (clock_gettime s)
       (cfg_infinite cfg \<or> cfg_record_mode cfg \<or> 0 < cfg_count_limit cfg) (init_state s) = (w, fin)"
  using assms by (auto simp: main_def Let_def split: prod.splits)

lemma record_run:
  assumes "\<not> cfg_click_mode cfg" and "cfg_record_mode cfg"
    and "alloc_ok (max_events_of (cfg_record_seconds cfg))"
    and "main cfg started_at alloc_ok s = (code, acts, why, fin)"
  shows "m_events fin = take (max_events_of (cfg_record_seconds cfg)) (events_of (m_trace fin))"
    and "m_acts fin = []"
    and "acts = finish cfg started_at fin"
    and "\<forall>r\<in>set (butlast (m_trace fin)). r \<noteq> EnterKey \<and> r \<noteq> Terminated"
    and "why = Some TimeUp \<and>
           cfg_record_seconds cfg \<le> time_diff (clock_gettime (m_tty fin)) (clock_gettime s) \<or>
         why = Some EnterPressed \<and> m_trace fin \<noteq> [] \<and> last (m_trace fin) = EnterKey \<or>
         why = Some SourceEnded \<and> m_trace fin \<noteq> [] \<and> last (m_trace fin) = Terminated"
proof -
  let ?wm = "cfg_infinite cfg \<or> cfg_record_mode cfg \<or> 0 < cfg_count_limit cfg"
  let ?rs = "clock_gettime s"
  let ?cap = "max_events_of (cfg_record_seconds cfg)"
  define I where "I st \<longleftrightarrow>
      m_events st = take ?cap (events_of (m_trace st)) \<and> m_acts st = [] \<and>
      (\<forall>r\<in>set (m_trace st). r \<noteq> EnterKey \<and> r \<noteq> Terminated)" for st :: mstate
  obtain w where why: "why = Some w" and acts: "acts = m_acts fin @ finish cfg started_at fin"
    and loop: "main_loop cfg alloc_ok ?cap ?rs ?wm (init_state s) = (w, fin)"
    using main_record [OF assms] by blast
  have init: "I (init_state s)" by (simp add: I_def init_state_def)
  have step: "I st'" if "I st" and it: "main_iter cfg alloc_ok ?cap ?rs ?wm st = Inl st'" for st st'
  proof -
    let ?rem = "cfg_record_seconds cfg - time_diff (clock_gettime (m_tty st)) ?rs"
    have go: "\<not> ?rem \<le> 0" using it assms(2) by (auto simp: main_iter_def Let_def)
    obtain r s' where rd: "read_sgr_event_timeout ?rem ?wm (m_tty st) = (r, s')"
      by (cases "read_sgr_event_timeout ?rem ?wm (m_tty st)")
    show ?thesis
    proof (cases r)
      case (Event ev)
      then have "st' = (if length (m_events st) < ?cap
          then st\<lparr>m_tty := s', m_trace := m_trace st @ [Event ev], m_events := m_events st @ [ev]\<rparr>
          else st\<lparr>m_tty := s', m_trace := m_trace st @ [Event ev]\<rparr>)"
        using it rd go assms(2) by (auto simp: main_iter_def Let_def)
      then show ?thesis
        using \<open>I st\<close> take_snoc_cap [of ?cap "events_of (m_trace st)" ev]
        unfolding I_def by (auto simp: events_of_append)
    next
      case Timeout
      then have "st' = st\<lparr>m_tty := s', m_trace := m_trace st @ [Timeout]\<rparr>"
        using it rd go assms(2) by (auto simp: main_iter_def Let_def)
      then show ?thesis using \<open>I st\<close> unfolding I_def by (auto simp: events_of_append)
    next
      case Terminated
      with it rd go assms(2) show ?thesis by (auto simp: main_iter_def Let_def)
    next
      case EnterKey
      with it rd go assms(2) show ?thesis by (auto simp: main_iter_def Let_def)
    qed
  qed
  obtain stk where Ik: "I stk" and ex: "main_iter cfg alloc_ok ?cap ?rs ?wm stk = Inr (w, fin)"
    using main_loop_invariant [OF loop, of I] init step by blast
  let ?rem = "cfg_record_seconds cfg - time_diff (clock_gettime (m_tty stk)) ?rs"
  have all: "I' fin \<and> (w = TimeUp \<and> cfg_record_seconds cfg \<le> time_diff (clock_gettime (m_tty fin)) ?rs \<or>
       w = EnterPressed \<and> m_trace fin \<noteq> [] \<and> last (m_trace fin) = EnterKey \<or>
       w = SourceEnded \<and> m_trace fin \<noteq> [] \<and> last (m_trace fin) = Terminated)"
    if I': "I' = (\<lambda>st. m_events st = take ?cap (events_of (m_trace st)) \<and> m_acts st = [] \<and>
      (\<forall>r\<in>set (butlast (m_trace st)). r \<noteq> EnterKey \<and> r \<noteq> Terminated))" for I'
  proof (cases "?rem \<le> 0")
    case True
    then have "w = TimeUp" "fin = stk" using ex assms(2) by (simp_all add: main_iter_def Let_def)
    with True Ik show ?thesis unfolding I_def I' by (auto dest: in_set_butlastD)
  next
    case go: False
    obtain r s' where rd: "read_sgr_event_timeout ?rem ?wm (m_tty stk) = (r, s')"
      by (cases "read_sgr_event_timeout ?rem ?wm (m_tty stk)")
    show ?thesis
    proof (cases r)
      case (Event ev)
      with ex rd go assms(2) show ?thesis by (auto simp: main_iter_def Let_def)
    next
      case Timeout
      with ex rd go assms(2) show ?thesis by (auto simp: main_iter_def Let_def)
    next
      case Terminated
      then have "w = SourceEnded" "fin = stk\<lparr>m_tty := s', m_trace := m_trace stk @ [Terminated]\<rparr>"
        using ex rd go assms(2) by (auto simp: main_iter_def Let_def)
      with Ik show ?thesis unfolding I_def I' by (auto simp: events_of_append)
    next
      case EnterKey
      then have "w = EnterPressed" "fin = stk\<lparr>m_tty := s', m_trace := m_trace stk @ [EnterKey]\<rparr>"
        using ex rd go assms(2) by (auto simp: main_iter_def Let_def)
      with Ik show ?thesis unfolding I_def I' by (auto simp: events_of_append)
    qed
  qed
  from all [OF refl] why acts
  show "m_events fin = take ?cap (events_of (m_trace fin))" "m_acts fin = []"
    "acts = finish cfg started_at fin"
    "\<forall>r\<in>set (butlast (m_trace fin)). r \<noteq> EnterKey \<and> r \<noteq> Terminated"
    "why = Some TimeUp \<and>
           cfg_record_seconds cfg \<le> time_diff (clock_gettime (m_tty fin)) (clock_gettime s) \<or>
         why = Some EnterPressed \<and> m_trace fin \<noteq> [] \<and> last (m_trace fin) = EnterKey \<or>
         why = Some SourceEnded \<and> m_trace fin \<noteq> [] \<and> last (m_trace fin) = Terminated"
    by auto
qed

lemma marks_append: "marks (a @ b) = marks a @ marks b"
  by (induction a rule: marks.induct) auto

lemma marks_emit_click: "marks [emit_click m c st e] = []"
  by (simp add: emit_click_def print_json_line_def print_json_history_def Let_def)

lemma marks_finish_plain: "\<not> cfg_record_mode cfg \<Longrightarrow> marks (finish cfg started_at st) = []"
  by (simp add: finish_def print_json_history_def Let_def)

lemma emit_event_marks:
  assumes "emit_event cfg alloc_ok ev st = res"
  shows "case res of
      Inl st' \<Rightarrow> m_trace st' = m_trace st \<and>
        marks (m_acts st') = marks (m_acts st) @
          (if cfg_do_mark cfg \<and> ev_type ev = EVT_PRESS then [(ev_x ev, ev_y ev)] else [])
    | Inr (w, st') \<Rightarrow> m_trace st' = m_trace st \<and>
        marks (m_acts st') = marks (m_acts st) @
          (if cfg_do_mark cfg \<and> ev_type ev = EVT_PRESS then [(ev_x ev, ev_y ev)] else [])"
  using assms [symmetric]
  by (simp add: emit_event_def Let_def marks_append draw_mark_def print_json_line_def)

lemma finish_event_marks:
  assumes "finish_event cfg ev st = res"
  shows "case res of
      Inl st' \<Rightarrow> m_trace st' = m_trace st \<and> m_acts st' = m_acts st
    | Inr (w, st') \<Rightarrow> m_trace st' = m_trace st \<and> m_acts st' = m_acts st"
  using assms [symmetric] by (simp add: finish_event_def Let_def)

lemma handle_event_marks:
  assumes "handle_event cfg alloc_ok ev st = res"
  shows "case res of
      Inl st' \<Rightarrow> m_trace st' = m_trace st \<and>
        marks (m_acts st') = marks (m_acts st) @
          (if cfg_do_mark cfg \<and> ev_type ev = EVT_PRESS then [(ev_x ev, ev_y ev)] else [])
    | Inr (w, st') \<Rightarrow> m_trace st' = m_trace st \<and>
        marks (m_acts st') = marks (m_acts st) @
          (if cfg_do_mark cfg \<and> ev_type ev = EVT_PRESS then [(ev_x ev, ev_y ev)] else [])"
proof (cases "emit_event cfg alloc_ok ev st")
  case (Inl st2)
  with assms have f: "finish_event cfg ev st2 = res" by (simp add: handle_event_def)
  show ?thesis
    using emit_event_marks [OF Inl] finish_event_marks [OF f]
    by (auto split: sum.splits prod.splits)
next
  case (Inr b)
  with assms have "res = Inr b" by (simp add: handle_event_def)
  with emit_event_marks [OF Inr] show ?thesis by simp
qed

lemma plain_run_marks:
  assumes "\<not> cfg_click_mode cfg" and "\<not> cfg_record_mode cfg"
    and "main cfg started_at alloc_ok s = (code, acts, why, fin)"
  shows "marks acts =
     (if cfg_do_mark cfg then map (\<lambda>e. (ev_x e, ev_y e)) (presses (m_trace fin)) else [])"
proof -
  let ?wm = "cfg_infinite cfg \<or> cfg_record_mode cfg \<or> 0 < cfg_count_limit cfg"
  let ?rs = "clock_gettime s"
  define I where "I st \<longleftrightarrow> marks (m_acts st) =
     (if cfg_do_mark cfg then map (\<lambda>e. (ev_x e, ev_y e)) (presses (m_trace st)) else [])"
    for st :: mstate
  obtain w where acts: "acts = m_acts fin @ finish cfg started_at fin"
    and loop: "main_loop cfg alloc_ok 0 ?rs ?wm (init_state s) = (w, fin)"
    using main_plain [OF assms] by blast
  have init: "I (init_state s)" by (simp add: I_def init_state_def)
  have iter: "case res of Inl st' \<Rightarrow> I st' | Inr (w, st') \<Rightarrow> I st'"
    if "I st" and it: "main_iter cfg alloc_ok 0 ?rs ?wm st = res" for st res
  proof -
    obtain r s' where rd: "read_sgr_event_timeout (- 1) ?wm (m_tty st) = (r, s')"
      by (cases "read_sgr_event_timeout (- 1) ?wm (m_tty st)")
    show ?thesis
    proof (cases r)
      case (Event ev)
      let ?st0 = "st\<lparr>m_tty := s', m_trace := m_trace st @ [Event ev]\<rparr>"
      have he: "handle_event cfg alloc_ok ev ?st0 = res"
        using it rd Event assms(2) by (simp add: main_iter_def Let_def)
      show ?thesis
        using handle_event_marks [OF he] \<open>I st\<close> unfolding I_def
        by (auto simp: presses_append split: sum.splits prod.splits)
    next
      case Timeout
      then have "res = Inl (st\<lparr>m_tty := s', m_trace := m_trace st @ [Timeout]\<rparr>)"
        using it rd assms(2) by (simp add: main_iter_def Let_def)
      with \<open>I st\<close> show ?thesis unfolding I_def by (simp add: presses_append)
    next
      case Terminated
      then have "res = Inr (SourceEnded, st\<lparr>m_tty := s', m_trace := m_trace st @ [Terminated]\<rparr>)"
        using it rd assms(2) by (simp add: main_iter_def Let_def)
      with \<open>I st\<close> show ?thesis unfolding I_def by (simp add: presses_append)
    next
      case EnterKey
      then have "res = Inr (EnterPressed, st\<lparr>m_tty := s', m_trace := m_trace st @ [EnterKey]\<rparr>)"
        using it rd assms(2) by (simp add: main_iter_def Let_def)
      with \<open>I st\<close> show ?thesis unfolding I_def by (simp add: presses_append)
    qed
  qed
  have step: "I st'" if "I st" and "main_iter cfg alloc_ok 0 ?rs ?wm st = Inl st'" for st st'
    using iter [OF that] by simp
  obtain stk where Ik: "I stk" and ex: "main_iter cfg alloc_ok 0 ?rs ?wm stk = Inr (w, fin)"
    using main_loop_invariant [OF loop, of I] init step by blast
  have "I fin" using iter [OF Ik ex] by simp
  then show ?thesis
    unfolding acts I_def using assms(2) by (simp add: marks_append marks_finish_plain)
qed

lemma finish_record_json:
  assumes "cfg_record_mode cfg" and "cfg_out_mode cfg = OUT_JSON \<or> cfg_out_mode cfg = OUT_PRETTY"
  shows "finish cfg started_at st =
     playback_events_color (m_events st) @
     [print_json_from_events (m_events st) (cfg_out_mode cfg = OUT_PRETTY) ''record'' started_at
        (if 1 < length (m_events st)
         then time_diff (ev_t (m_events st ! (length (m_events st) - 1))) (ev_t (m_events st ! 0))
         else 0)]"
  using assms by (auto simp: finish_def Let_def)

lemma print_json_from_events_doc:
  "\<exists>doc. print_json_from_events events pretty mode started_at duration = JsonDoc doc \<and>
     jd_mode doc = mode \<and> jd_duration doc = duration"
  by (simp add: print_json_from_events_def Let_def)

lemma main_click:
  assumes "cfg_click_mode cfg" and "main cfg started_at alloc_ok s = (code, acts, why, fin)"
  shows "\<exists>rc s'. handle_click_mode (cfg_click_N cfg) (cfg_out_mode cfg) (cfg_do_mark cfg)
            started_at (alloc_ok 1) s = (rc, acts, s', m_trace fin) \<and>
          code = (if rc = 0 then 0 else 1)"
proof -
  obtain rc a s' tr where h: "handle_click_mode (cfg_click_N cfg) (cfg_out_mode cfg)
      (cfg_do_mark cfg) started_at (alloc_ok 1) s = (rc, a, s', tr)"
    by (cases "handle_click_mode (cfg_click_N cfg) (cfg_out_mode cfg)
      (cfg_do_mark cfg) started_at (alloc_ok 1) s")
  have "code = (if rc = 0 then 0 else 1)" "acts = a" "m_trace fin = tr"
    using assms h by (auto simp: main_def)
  with h show ?thesis by blast
qed

lemma docs_append: "docs (a @ b) = docs a @ docs b"
  by (induction a rule: docs.induct) auto

lemma printers_outputs:
  "\<exists>doc. print_json_history outs pretty mode started_at duration = JsonDoc doc \<and>
          jd_pretty doc = pretty \<and> length (jd_events doc) = length outs \<and>
          jd_outputs doc = press_entries doc"
  "\<exists>doc. print_json_from_events events pretty mode started_at duration = JsonDoc doc \<and>
          jd_pretty doc = pretty \<and> length (jd_events doc) = length events \<and>
          jd_outputs doc = press_entries doc"
  by (cases pretty;
      simp add: print_json_history_def print_json_from_events_def fold_count press_entries_def
        filter_press_map filter_press_events_with_dt length_events_with_dt o_def je_type_json_of)+

lemma docs_printers:
  "\<forall>d\<in>set (docs [print_json_history outs pretty mode started_at duration]).
      jd_outputs d = press_entries d"
  "\<forall>d\<in>set (docs [print_json_from_events events pretty mode started_at duration]).
      jd_outputs d = press_entries d"
  using printers_outputs(1) [of outs pretty mode started_at duration]
    printers_outputs(2) [of events pretty mode started_at duration]
  by auto

lemma docs_emit_click:
  "\<forall>d\<in>set (docs [emit_click m c st e]). jd_outputs d = press_entries d"
  using docs_printers(1) by (simp add: emit_click_def print_json_line_def)

lemma docs_click:
  assumes "handle_click_mode N m mk st c s = (rc, acts, s', tr)"
  shows "\<forall>d\<in>set (docs acts). jd_outputs d = press_entries d"
proof (cases "rc = 0")
  case True
  have "acts = (if mk then [draw_mark (ev_x (last (presses tr))) (ev_y (last (presses tr)))] else []) @
      [emit_click m c st (last (presses tr))]"
    using click_success [OF assms [unfolded True]] by blast
  then show ?thesis using docs_emit_click [of m c st "last (presses tr)"]
    by (simp add: docs_append draw_mark_def)
next
  case False
  then show ?thesis using handle_click_failure [OF assms] by simp
qed

lemma docs_map_JsonLine: "docs (map JsonLine js) = []"
  by (induction js) auto

lemma docs_map_CsvLine: "docs (map (\<lambda>e. CsvLine (f e) (g e) (h e)) es) = []"
  by (induction es) auto

lemma docs_finish:
  "\<forall>d\<in>set (docs (finish cfg started_at st)). jd_outputs d = press_entries d"
  using docs_printers
  by (simp add: finish_def Let_def docs_append playback_events_color_def docs_map_JsonLine
      docs_map_CsvLine)

lemma emit_event_docs:
  assumes "emit_event cfg alloc_ok ev st = res"
  shows "case res of Inl st' \<Rightarrow> docs (m_acts st') = docs (m_acts st)
    | Inr (w, st') \<Rightarrow> docs (m_acts st') = docs (m_acts st)"
  using assms [symmetric]
  by (simp add: emit_event_def Let_def docs_append draw_mark_def print_json_line_def)

lemma handle_event_docs:
  assumes "handle_event cfg alloc_ok ev st = res"
  shows "case res of Inl st' \<Rightarrow> docs (m_acts st') = docs (m_acts st)
    | Inr (w, st') \<Rightarrow> docs (m_acts st') = docs (m_acts st)"
proof (cases "emit_event cfg alloc_ok ev st")
  case (Inl st2)
  with assms have f: "finish_event cfg ev st2 = res" by (simp add: handle_event_def)
  show ?thesis
    using emit_event_docs [OF Inl] finish_event_marks [OF f]
    by (auto split: sum.splits prod.splits)
next
  case (Inr b)
  with assms have "res = Inr b" by (simp add: handle_event_def)
  with emit_event_docs [OF Inr] show ?thesis by simp
qed

lemma main_iter_docs:
  assumes "main_iter cfg alloc_ok max_events rec_start want_motion st = res"
  shows "case res of Inl st' \<Rightarrow> docs (m_acts st') = docs (m_acts st)
    | Inr (w, st') \<Rightarrow> docs (m_acts st') = docs (m_acts st)"
proof -
  let ?rem = "cfg_record_seconds cfg - time_diff (clock_gettime (m_tty st)) rec_start"
  let ?t = "if cfg_record_mode cfg then ?rem else - 1"
  show ?thesis
  proof (cases "cfg_record_mode cfg \<and> ?rem \<le> 0")
    case True
    with assms show ?thesis by (auto simp: main_iter_def Let_def)
  next
    case go: False
    obtain r s' where rd: "read_sgr_event_timeout ?t want_motion (m_tty st) = (r, s')"
      by (cases "read_sgr_event_timeout ?t want_motion (m_tty st)")
    show ?thesis
    proof (cases r)
      case (Event ev)
      let ?st0 = "st\<lparr>m_tty := s', m_trace := m_trace st @ [Event ev]\<rparr>"
      show ?thesis
      proof (cases "cfg_record_mode cfg")
        case True
        with assms go rd Event show ?thesis by (auto simp: main_iter_def Let_def)
      next
        case False
        then have he: "handle_event cfg alloc_ok ev ?st0 = res"
          using assms rd Event by (simp add: main_iter_def Let_def)
        show ?thesis using handle_event_docs [OF he] by (auto split: sum.splits prod.splits)
      qed
    next
      case Timeout
      with assms go rd show ?thesis by (auto simp: main_iter_def Let_def)
    next
      case Terminated
      with assms go rd show ?thesis by (auto simp: main_iter_def Let_def)
    next
      case EnterKey
      with assms go rd show ?thesis by (auto simp: main_iter_def Let_def)
    qed
  qed
qed

lemma main_docs:
  assumes "main cfg started_at alloc_ok s = (code, acts, why, fin)"
  shows "\<forall>d\<in>set (docs acts). jd_outputs d = press_entries d"
proof (cases "cfg_click_mode cfg")
  case True
  then show ?thesis using main_click [OF True assms] docs_click by blast
next
  case False
  let ?wm = "cfg_infinite cfg \<or> cfg_record_mode cfg \<or> 0 < cfg_count_limit cfg"
  let ?me = "if cfg_record_mode cfg then max_events_of (cfg_record_seconds cfg) else 0"
  show ?thesis
  proof (cases "cfg_record_mode cfg \<and> \<not> alloc_ok ?me")
    case True
    then have "acts = [ErrorMsg 1 ''cannot allocate events buffer'']"
      using assms False by (auto simp: main_def Let_def)
    then show ?thesis by simp
  next
    case ok: False
    obtain w where acts: "acts = m_acts fin @ finish cfg started_at fin"
      and loop: "main_loop cfg alloc_ok ?me (clock_gettime s) ?wm (init_state s) = (w, fin)"
      using assms False ok by (auto simp: main_def Let_def split: prod.splits)
    define I where "I st \<longleftrightarrow> docs (m_acts st) = []" for st :: mstate
    have init: "I (init_state s)" by (simp add: I_def init_state_def)
    have step: "I st'" if "I st" and "main_iter cfg alloc_ok ?me (clock_gettime s) ?wm st = Inl st'"
      for st st'
      using main_iter_docs [OF that(2)] that(1) by (simp add: I_def)
    obtain stk where Ik: "I stk"
      and ex: "main_iter cfg alloc_ok ?me (clock_gettime s) ?wm stk = Inr (w, fin)"
      using main_loop_invariant [OF loop, of I] init step by blast
    have "docs (m_acts fin) = []" using main_iter_docs [OF ex] Ik by (simp add: I_def)
    then show ?thesis unfolding acts using docs_finish [of cfg started_at fin]
      by (simp add: docs_append)
  qed
qed

lemma floor_rat_numeral: "\<lfloor>(numeral a / numeral b :: rat)\<rfloor> = numeral a div numeral b"
  using floor_divide_of_int_eq [of "numeral a" "numeral b", where ?'a = rat] by simp

lemma floor_rat_one: "\<lfloor>(1 / numeral b :: rat)\<rfloor> = 1 div numeral b"
  using floor_divide_of_int_eq [of 1 "numeral b", where ?'a = rat] by simp

lemma floor_rat_neg_numeral:
  "\<lfloor>- (numeral a / numeral b :: rat)\<rfloor> = - numeral a div numeral b"
  using floor_divide_of_int_eq [of "- numeral a" "numeral b", where ?'a = rat] by simp

lemmas main_eval =
  main_def main_loop.simps main_iter_def handle_event_def emit_event_def finish_event_def
  finish_def init_state_def time_diff_def ts_double_def max_events_of_examples(1) MAX_EVENTS_def
  playback_events_color_def print_json_from_events_def timeval_of_def Let_def
  floor_rat_numeral floor_rat_one floor_rat_neg_numeral

lemmas ex_eval = ex_limited_def ex_record_def ex_click_def

subsection \<open>Claims on the main loop\<close>

text \<open>
  C6. In single/limited mode (no \<^verbatim>\<open>-i\<close>, no \<^verbatim>\<open>-r\<close>, limit \<open>N\<close> from \<^verbatim>\<open>-n\<close> or \<open>1\<close>), when no
  allocation fails: the counter \<^verbatim>\<open>outputs\<close> is the number of presses among the events read,
  so motions and releases never count, while in the JSON modes every event read is
  buffered; before the last result of the reader the count was below \<open>N\<close> and every result
  was an event; the loop is left either at the press that makes the count \<open>N\<close>, or at
  Enter, or at the end of the source.
\<close>

theorem limited_mode_counts_presses:
  assumes "\<not> cfg_click_mode cfg" and "\<not> cfg_record_mode cfg" and "\<not> cfg_infinite cfg"
    and "0 \<le> cfg_count_limit cfg"
    and "\<forall>n. alloc_ok n"
    and "main cfg started_at alloc_ok s = (code, acts, why, fin)"
  shows "m_outputs fin = int (length (presses (m_trace fin))) \<and>
         m_trace fin \<noteq> [] \<and>
         int (length (presses (butlast (m_trace fin)))) < press_limit cfg \<and>
         (\<forall>r\<in>set (butlast (m_trace fin)). \<exists>ev. r = Event ev) \<and>
         (why = Some LimitReached \<and> m_outputs fin = press_limit cfg \<and>
            (\<exists>ev. last (m_trace fin) = Event ev \<and> ev_type ev = EVT_PRESS) \<or>
          why = Some EnterPressed \<and> last (m_trace fin) = EnterKey \<or>
          why = Some SourceEnded \<and> last (m_trace fin) = Terminated) \<and>
         (cfg_out_mode cfg = OUT_JSON \<or> cfg_out_mode cfg = OUT_PRETTY \<longrightarrow>
            map oe_ev (m_outs fin) = events_of (m_trace fin))"
proof -
  let ?wm = "cfg_infinite cfg \<or> cfg_record_mode cfg \<or> 0 < cfg_count_limit cfg"
  let ?rs = "clock_gettime s"
  let ?json = "cfg_out_mode cfg = OUT_JSON \<or> cfg_out_mode cfg = OUT_PRETTY"
  define I where "I st \<longleftrightarrow>
      m_outputs st = int (length (presses (m_trace st))) \<and>
      m_outputs st < press_limit cfg \<and>
      (\<forall>r\<in>set (m_trace st). \<exists>ev. r = Event ev) \<and>
      (?json \<longrightarrow> map oe_ev (m_outs st) = events_of (m_trace st))" for st :: mstate
  obtain w where why: "why = Some w"
    and loop: "main_loop cfg alloc_ok 0 ?rs ?wm (init_state s) = (w, fin)"
    using main_plain [OF assms(1,2,6)] by blast
  have init: "I (init_state s)"
    using assms(4) by (simp add: I_def init_state_def press_limit_def)
  have step: "I st'" if "I st" and it: "main_iter cfg alloc_ok 0 ?rs ?wm st = Inl st'" for st st'
  proof -
    obtain r s' where rd: "read_sgr_event_timeout (- 1) ?wm (m_tty st) = (r, s')"
      by (cases "read_sgr_event_timeout (- 1) ?wm (m_tty st)")
    have nt: "r \<noteq> Timeout" using rd by (rule reader_block_no_timeout)
    show ?thesis
    proof (cases r)
      case (Event ev)
      let ?st0 = "st\<lparr>m_tty := s', m_trace := m_trace st @ [Event ev]\<rparr>"
      have he: "handle_event cfg alloc_ok ev ?st0 = Inl st'"
        using it rd Event assms(2) by (simp add: main_iter_def Let_def)
      obtain st'' where c: "Inl st' = Inl st'' \<or> Inl st' = Inr (LimitReached, st'')"
          "m_trace st'' = m_trace ?st0"
          "m_outputs st'' = m_outputs ?st0 + (if ev_type ev = EVT_PRESS then 1 else 0)"
          "map oe_ev (m_outs st'') = map oe_ev (m_outs ?st0) @ (if ?json then [ev] else [])"
          "(Inl st' = Inr (LimitReached, st'')) \<longleftrightarrow>
             (\<not> cfg_infinite cfg \<and> press_limit cfg \<le> m_outputs st'' \<and> 0 \<le> cfg_count_limit cfg)"
        using handle_event_cases [OF he assms(5)] by blast
      from c(1) have eq: "st'' = st'" by simp
      have lim: "m_outputs st' < press_limit cfg" using c(5) assms(3,4) eq by auto
      show ?thesis
        using \<open>I st\<close> c(2,3,4) lim unfolding eq I_def
        by (auto simp: presses_append events_of_append)
    next
      case Timeout
      with nt show ?thesis by simp
    next
      case Terminated
      with it rd assms(2) show ?thesis by (simp add: main_iter_def Let_def)
    next
      case EnterKey
      with it rd assms(2) show ?thesis by (simp add: main_iter_def Let_def)
    qed
  qed
  obtain stk where Ik: "I stk" and ex: "main_iter cfg alloc_ok 0 ?rs ?wm stk = Inr (w, fin)"
    using main_loop_invariant [OF loop, of I] init step by blast
  obtain r s' where rd: "read_sgr_event_timeout (- 1) ?wm (m_tty stk) = (r, s')"
    by (cases "read_sgr_event_timeout (- 1) ?wm (m_tty stk)")
  show ?thesis
  proof (cases r)
    case (Event ev)
    let ?st0 = "stk\<lparr>m_tty := s', m_trace := m_trace stk @ [Event ev]\<rparr>"
    have he: "handle_event cfg alloc_ok ev ?st0 = Inr (w, fin)"
      using ex rd Event assms(2) by (simp add: main_iter_def Let_def)
    obtain st'' where c: "Inr (w, fin) = Inl st'' \<or> Inr (w, fin) = Inr (LimitReached, st'')"
        "m_trace st'' = m_trace ?st0"
        "m_outputs st'' = m_outputs ?st0 + (if ev_type ev = EVT_PRESS then 1 else 0)"
        "map oe_ev (m_outs st'') = map oe_ev (m_outs ?st0) @ (if ?json then [ev] else [])"
        "(Inr (w, fin) = Inr (LimitReached, st'')) \<longleftrightarrow>
           (\<not> cfg_infinite cfg \<and> press_limit cfg \<le> m_outputs st'' \<and> 0 \<le> cfg_count_limit cfg)"
      using handle_event_cases [OF he assms(5)] by blast
    from c(1) have eq: "w = LimitReached" "st'' = fin" by simp_all
    have ge: "press_limit cfg \<le> m_outputs fin" using c(5) eq by simp
    have press: "ev_type ev = EVT_PRESS" and n: "m_outputs fin = press_limit cfg"
      using ge c(3) Ik unfolding eq I_def by (auto split: if_splits)
    show ?thesis
      using Ik c(2,3,4) press n why unfolding eq I_def
      by (auto simp: presses_append events_of_append)
  next
    case Timeout
    with reader_block_no_timeout [OF rd] show ?thesis by simp
  next
    case Terminated
    then have "w = SourceEnded" "fin = stk\<lparr>m_tty := s', m_trace := m_trace stk @ [Terminated]\<rparr>"
      using ex rd assms(2) by (simp_all add: main_iter_def Let_def)
    then show ?thesis using Ik why unfolding I_def
      by (auto simp: presses_append events_of_append)
  next
    case EnterKey
    then have "w = EnterPressed" "fin = stk\<lparr>m_tty := s', m_trace := m_trace stk @ [EnterKey]\<rparr>"
      using ex rd assms(2) by (simp_all add: main_iter_def Let_def)
    then show ?thesis using Ik why unfolding I_def
      by (auto simp: presses_append events_of_append)
  qed
qed

theorem limited_mode_counts_presses_witness:
  "fst (snd (main ex_limited ''T'' (\<lambda>n. True)
      \<lparr>clock = 0, pending = timed 1000000
         (ESC # ''[<0;1;1M'' @ ESC # ''[<32;2;2M'' @ ESC # ''[<0;2;2m'' @
          ESC # ''[<0;3;3M'' @ ESC # ''[<0;4;4M'')\<rparr>)) =
     [DrawMark 1 1, DrawMark 3 3,
      JsonDoc \<lparr>jd_pretty = False, jd_mode = ''stream'', jd_started_at = ''T'',
        jd_duration = 7 / 250, jd_outputs = 2,
        jd_events =
          [\<lparr>je_x = 1, je_y = 1, je_button = 0, je_type = ''press'', je_dt = 0\<rparr>,
           \<lparr>je_x = 2, je_y = 2, je_button = 32, je_type = ''motion'', je_dt = 1 / 100\<rparr>,
           \<lparr>je_x = 2, je_y = 2, je_button = 0, je_type = ''release'', je_dt = 9 / 1000\<rparr>,
           \<lparr>je_x = 3, je_y = 3, je_button = 0, je_type = ''press'', je_dt = 9 / 1000\<rparr>]\<rparr>] \<and>
   fst (snd (snd (main ex_limited ''T'' (\<lambda>n. True)
      \<lparr>clock = 0, pending = timed 1000000
         (ESC # ''[<0;1;1M'' @ ESC # ''[<32;2;2M'' @ ESC # ''[<0;2;2m'' @
          ESC # ''[<0;3;3M'' @ ESC # ''[<0;4;4M'')\<rparr>))) = Some LimitReached \<and>
   m_outputs (snd (snd (snd (main ex_limited ''T'' (\<lambda>n. True)
      \<lparr>clock = 0, pending = timed 1000000
         (ESC # ''[<0;1;1M'' @ ESC # ''[<32;2;2M'' @ ESC # ''[<0;2;2m'' @
          ESC # ''[<0;3;3M'' @ ESC # ''[<0;4;4M'')\<rparr>)))) = 2 \<and>
   pending (m_tty (snd (snd (snd (main ex_limited ''T'' (\<lambda>n. True)
      \<lparr>clock = 0, pending = timed 1000000
         (ESC # ''[<0;1;1M'' @ ESC # ''[<32;2;2M'' @ ESC # ''[<0;2;2m'' @
          ESC # ''[<0;3;3M'' @ ESC # ''[<0;4;4M'')\<rparr>))))) = timed 1000000 (ESC # ''[<0;4;4M'')"
proof -
  let ?s = "\<lparr>clock = 0, pending = timed 1000000
         (ESC # ''[<0;1;1M'' @ ESC # ''[<32;2;2M'' @ ESC # ''[<0;2;2m'' @
          ESC # ''[<0;3;3M'' @ ESC # ''[<0;4;4M'')\<rparr>"
  obtain code acts why fin where run: "main ex_limited ''T'' (\<lambda>n. True) ?s = (code, acts, why, fin)"
    and ev: "acts = [DrawMark 1 1, DrawMark 3 3,
      JsonDoc \<lparr>jd_pretty = False, jd_mode = ''stream'', jd_started_at = ''T'',
        jd_duration = 7 / 250, jd_outputs = 2,
        jd_events =
          [\<lparr>je_x = 1, je_y = 1, je_button = 0, je_type = ''press'', je_dt = 0\<rparr>,
           \<lparr>je_x = 2, je_y = 2, je_button = 32, je_type = ''motion'', je_dt = 1 / 100\<rparr>,
           \<lparr>je_x = 2, je_y = 2, je_button = 0, je_type = ''release'', je_dt = 9 / 1000\<rparr>,
           \<lparr>je_x = 3, je_y = 3, je_button = 0, je_type = ''press'', je_dt = 9 / 1000\<rparr>]\<rparr>]"
      "why = Some LimitReached"
      "pending (m_tty fin) = timed 1000000 (ESC # ''[<0;4;4M'')"
    by (simp add: ex_eval main_eval click_eval decoder_eval)
  have h: "\<not> cfg_click_mode ex_limited" "\<not> cfg_record_mode ex_limited"
      "\<not> cfg_infinite ex_limited" "0 \<le> cfg_count_limit ex_limited" "\<forall>n. (\<lambda>n. True) n"
    by (simp_all add: ex_eval)
  have "m_outputs fin = press_limit ex_limited"
    using limited_mode_counts_presses [OF h run] ev(2) by auto
  then have "m_outputs fin = 2" by (simp add: press_limit_def ex_eval)
  with ev show ?thesis unfolding run by simp
qed

text \<open>
  C8. In record mode the buffer holds at most \<open>max_events_of d\<close> events for the duration
  \<open>d\<close>, the double that \<^verbatim>\<open>-r\<close> set: the product of \<open>d\<close> and \<open>1000\<close> as the floating point
  unit rounds it, cut to an integer, plus 1024, and at most 65536. This is a thousand per
  second plus 1024 or, where rounding lifts the product to the next integer, plus 1025,
  never below 1024. The events stored at the end are the first that many of the events
  read, in the order of arrival: once the buffer is full no further event is stored and
  none is replaced. The loop is not left for a full buffer: it ends when no time remains,
  at Enter, or at the end of the source. (The conversion of the product to \<^verbatim>\<open>size_t\<close> is
  defined only below \<open>2^64\<close>, which is a duration of more than \<open>10^16\<close> seconds. In the
  example \<^verbatim>\<open>-r 0.29\<close> sets the double \<open>5224175567749775 / 2^54\<close> and \<^verbatim>\<open>-r 1.001\<close> the double
  \<open>2254051613498933 / 2^51\<close>.)
\<close>

theorem record_mode_hard_cap:
  assumes "\<not> cfg_click_mode cfg" and "cfg_record_mode cfg"
    and "is_double (cfg_record_seconds cfg)" and "0 \<le> cfg_record_seconds cfg"
    and "dbl_mul (cfg_record_seconds cfg) 1000 < 2 ^ 64"
    and "alloc_ok (max_events_of (cfg_record_seconds cfg))"
    and "main cfg started_at alloc_ok s = (code, acts, why, fin)"
  shows "max_events_of (cfg_record_seconds cfg) =
           min (nat \<lfloor>dbl_mul (cfg_record_seconds cfg) 1000\<rfloor> + 1024) MAX_EVENTS \<and>
         min (nat \<lfloor>cfg_record_seconds cfg * 1000\<rfloor> + 1024) MAX_EVENTS
           \<le> max_events_of (cfg_record_seconds cfg) \<and>
         max_events_of (cfg_record_seconds cfg)
           \<le> min (nat \<lfloor>cfg_record_seconds cfg * 1000\<rfloor> + 1025) MAX_EVENTS \<and>
         1024 \<le> max_events_of (cfg_record_seconds cfg) \<and>
         max_events_of (cfg_record_seconds cfg) \<le> 65536 \<and>
         m_events fin = take (max_events_of (cfg_record_seconds cfg)) (events_of (m_trace fin)) \<and>
         (\<forall>r\<in>set (butlast (m_trace fin)). r \<noteq> EnterKey \<and> r \<noteq> Terminated) \<and>
         (why = Some TimeUp \<and>
            cfg_record_seconds cfg \<le> time_diff (clock_gettime (m_tty fin)) (clock_gettime s) \<or>
          why = Some EnterPressed \<and> last (m_trace fin) = EnterKey \<or>
          why = Some SourceEnded \<and> last (m_trace fin) = Terminated)"
proof (intro conjI)
  show "max_events_of (cfg_record_seconds cfg) =
      min (nat \<lfloor>dbl_mul (cfg_record_seconds cfg) 1000\<rfloor> + 1024) MAX_EVENTS"
    using assms(4,5) by (rule max_events_of_bounds(1))
  show "min (nat \<lfloor>cfg_record_seconds cfg * 1000\<rfloor> + 1024) MAX_EVENTS
      \<le> max_events_of (cfg_record_seconds cfg)"
    using assms(3,4,5) by (rule max_events_of_duration(1))
  show "max_events_of (cfg_record_seconds cfg)
      \<le> min (nat \<lfloor>cfg_record_seconds cfg * 1000\<rfloor> + 1025) MAX_EVENTS"
    using assms(3,4,5) by (rule max_events_of_duration(2))
  show "1024 \<le> max_events_of (cfg_record_seconds cfg)"
    using assms(4,5) by (rule max_events_of_bounds(2))
  show "max_events_of (cfg_record_seconds cfg) \<le> 65536"
    using assms(4,5) by (rule max_events_of_bounds(3))
  show "m_events fin = take (max_events_of (cfg_record_seconds cfg)) (events_of (m_trace fin))"
    using assms(1,2,6,7) by (rule record_run(1))
  show "\<forall>r\<in>set (butlast (m_trace fin)). r \<noteq> EnterKey \<and> r \<noteq> Terminated"
    using assms(1,2,6,7) by (rule record_run(4))
  show "why = Some TimeUp \<and>
            cfg_record_seconds cfg \<le> time_diff (clock_gettime (m_tty fin)) (clock_gettime s) \<or>
          why = Some EnterPressed \<and> last (m_trace fin) = EnterKey \<or>
          why = Some SourceEnded \<and> last (m_trace fin) = Terminated"
    using record_run(5) [OF assms(1,2,6,7)] by blast
qed

theorem record_mode_hard_cap_witness:
  "max_events_of (cfg_record_seconds ex_record) = 2024 \<and>
   max_events_of (5224175567749775 / 18014398509481984) = 1314 \<and>
   max_events_of (2254051613498933 / 2251799813685248) = 2024 \<and>
   m_events (snd (snd (snd (main ex_record ''T'' (\<lambda>n. True)
      \<lparr>clock = 0, pending = timed 1000000 (ESC # ''[<0;5;5M'' @ ESC # ''[<0;5;5m'') @
         [(2000000000, CHR ''x'')]\<rparr>)))) =
     [\<lparr>ev_x = 5, ev_y = 5, ev_button = 0, ev_type = EVT_PRESS,
        ev_t = \<lparr>tv_sec = 0, tv_nsec = 9000000\<rparr>\<rparr>,
      \<lparr>ev_x = 5, ev_y = 5, ev_button = 0, ev_type = EVT_RELEASE,
        ev_t = \<lparr>tv_sec = 0, tv_nsec = 18000000\<rparr>\<rparr>] \<and>
   fst (snd (snd (main ex_record ''T'' (\<lambda>n. True)
      \<lparr>clock = 0, pending = timed 1000000 (ESC # ''[<0;5;5M'' @ ESC # ''[<0;5;5m'') @
         [(2000000000, CHR ''x'')]\<rparr>))) = Some TimeUp \<and>
   clock (m_tty (snd (snd (snd (main ex_record ''T'' (\<lambda>n. True)
      \<lparr>clock = 0, pending = timed 1000000 (ESC # ''[<0;5;5M'' @ ESC # ''[<0;5;5m'') @
         [(2000000000, CHR ''x'')]\<rparr>))))) = 1000000000 \<and>
   m_events (snd (main_loop ex_record (\<lambda>n. True) 2 \<lparr>tv_sec = 0, tv_nsec = 0\<rparr> True
      (init_state \<lparr>clock = 0, pending = timed 1000000
         (ESC # ''[<0;5;5M'' @ ESC # ''[<32;6;5M'' @ ESC # ''[<0;6;5m'')\<rparr>))) =
     [\<lparr>ev_x = 5, ev_y = 5, ev_button = 0, ev_type = EVT_PRESS,
        ev_t = \<lparr>tv_sec = 0, tv_nsec = 9000000\<rparr>\<rparr>,
      \<lparr>ev_x = 6, ev_y = 5, ev_button = 32, ev_type = EVT_MOTION,
        ev_t = \<lparr>tv_sec = 0, tv_nsec = 19000000\<rparr>\<rparr>] \<and>
   length (events_of (m_trace (snd (main_loop ex_record (\<lambda>n. True) 2 \<lparr>tv_sec = 0, tv_nsec = 0\<rparr> True
      (init_state \<lparr>clock = 0, pending = timed 1000000
         (ESC # ''[<0;5;5M'' @ ESC # ''[<32;6;5M'' @ ESC # ''[<0;6;5m'')\<rparr>))))) = 3"
proof -
  let ?s = "\<lparr>clock = 0, pending = timed 1000000 (ESC # ''[<0;5;5M'' @ ESC # ''[<0;5;5m'') @
         [(2000000000, CHR ''x'')]\<rparr>"
  let ?e1 = "\<lparr>ev_x = 5, ev_y = 5, ev_button = 0, ev_type = EVT_PRESS,
        ev_t = \<lparr>tv_sec = 0, tv_nsec = 9000000\<rparr>\<rparr>"
  let ?e2 = "\<lparr>ev_x = 5, ev_y = 5, ev_button = 0, ev_type = EVT_RELEASE,
        ev_t = \<lparr>tv_sec = 0, tv_nsec = 18000000\<rparr>\<rparr>"
  obtain code acts why fin where run: "main ex_record ''T'' (\<lambda>n. True) ?s = (code, acts, why, fin)"
    and ev: "why = Some TimeUp" "m_trace fin = [Event ?e1, Event ?e2, Timeout]"
      "clock (m_tty fin) = 1000000000"
    by (simp add: ex_eval main_eval click_eval decoder_eval)
  have h: "\<not> cfg_click_mode ex_record" "cfg_record_mode ex_record"
      "is_double (cfg_record_seconds ex_record)" "0 \<le> cfg_record_seconds ex_record"
      "dbl_mul (cfg_record_seconds ex_record) 1000 < 2 ^ 64"
      "(\<lambda>n. True) (max_events_of (cfg_record_seconds ex_record))"
    by (simp_all add: ex_eval is_double_def double_examples(1) dbl_mul_one)
  have cap: "max_events_of (cfg_record_seconds ex_record) = 2024"
    by (simp add: ex_eval max_events_of_examples)
  have "m_events fin = take 2024 (events_of (m_trace fin))"
    using record_mode_hard_cap [OF h run] unfolding cap by blast
  then have stored: "m_events fin = [?e1, ?e2]" unfolding ev(2) by simp
  have small: "m_events (snd (main_loop ex_record (\<lambda>n. True) 2 \<lparr>tv_sec = 0, tv_nsec = 0\<rparr> True
      (init_state \<lparr>clock = 0, pending = timed 1000000
         (ESC # ''[<0;5;5M'' @ ESC # ''[<32;6;5M'' @ ESC # ''[<0;6;5m'')\<rparr>))) =
     [\<lparr>ev_x = 5, ev_y = 5, ev_button = 0, ev_type = EVT_PRESS,
        ev_t = \<lparr>tv_sec = 0, tv_nsec = 9000000\<rparr>\<rparr>,
      \<lparr>ev_x = 6, ev_y = 5, ev_button = 32, ev_type = EVT_MOTION,
        ev_t = \<lparr>tv_sec = 0, tv_nsec = 19000000\<rparr>\<rparr>] \<and>
   length (events_of (m_trace (snd (main_loop ex_record (\<lambda>n. True) 2 \<lparr>tv_sec = 0, tv_nsec = 0\<rparr> True
      (init_state \<lparr>clock = 0, pending = timed 1000000
         (ESC # ''[<0;5;5M'' @ ESC # ''[<32;6;5M'' @ ESC # ''[<0;6;5m'')\<rparr>))))) = 3"
    by (simp add: ex_eval main_eval click_eval decoder_eval)
  show ?thesis using cap stored ev small max_events_of_examples(2,3) unfolding run by simp
qed

text \<open>
  C9, as the claim states it, fails in two modes. In record mode the loop stores the event
  and goes round again before it reaches the mark, so that no mark is drawn although the
  help text says of \<^verbatim>\<open>-m\<close> that it works in any mode. In click mode only the reported
  press is marked: two presses read, one mark.
\<close>

theorem mark_every_press_counterexample:
  "cfg_do_mark ex_record \<and>
   presses (m_trace (snd (snd (snd (main ex_record ''T'' (\<lambda>n. True)
      \<lparr>clock = 0, pending = timed 1000000 (ESC # ''[<0;5;5M'' @ [CR])\<rparr>))))) =
     [\<lparr>ev_x = 5, ev_y = 5, ev_button = 0, ev_type = EVT_PRESS,
        ev_t = \<lparr>tv_sec = 0, tv_nsec = 9000000\<rparr>\<rparr>] \<and>
   marks (fst (snd (main ex_record ''T'' (\<lambda>n. True)
      \<lparr>clock = 0, pending = timed 1000000 (ESC # ''[<0;5;5M'' @ [CR])\<rparr>))) = [] \<and>
   cfg_do_mark ex_click \<and>
   presses (m_trace (snd (snd (snd (main ex_click ''T'' (\<lambda>n. True)
      \<lparr>clock = 0, pending = timed 1000000 (ESC # ''[<0;10;10M'' @ ESC # ''[<0;11;10M'')\<rparr>))))) =
     [\<lparr>ev_x = 10, ev_y = 10, ev_button = 0, ev_type = EVT_PRESS,
        ev_t = \<lparr>tv_sec = 0, tv_nsec = 11000000\<rparr>\<rparr>,
      \<lparr>ev_x = 11, ev_y = 10, ev_button = 0, ev_type = EVT_PRESS,
        ev_t = \<lparr>tv_sec = 0, tv_nsec = 22000000\<rparr>\<rparr>] \<and>
   marks (fst (snd (main ex_click ''T'' (\<lambda>n. True)
      \<lparr>clock = 0, pending = timed 1000000 (ESC # ''[<0;10;10M'' @ ESC # ''[<0;11;10M'')\<rparr>))) =
     [(11, 10)]"
  by (simp add: ex_eval main_eval click_eval decoder_eval MULTICLICK_MAX_GAP_def)

text \<open>
  C9, amended. With the mark option, outside record mode: in single/limited and continuous
  mode one mark is drawn for each press read and none for a motion or a release, so the
  marks are the positions of the presses, in order; in click mode a run that succeeds draws
  one mark, at the press it reports, and a run that fails draws none.
\<close>

theorem marks_follow_presses:
  assumes "\<not> cfg_record_mode cfg" and "cfg_do_mark cfg"
    and "main cfg started_at alloc_ok s = (code, acts, why, fin)"
  shows "(\<not> cfg_click_mode cfg \<longrightarrow>
            marks acts = map (\<lambda>e. (ev_x e, ev_y e)) (presses (m_trace fin))) \<and>
         (cfg_click_mode cfg \<longrightarrow>
            marks acts =
              (if code = 0
               then [(ev_x (last (presses (m_trace fin))), ev_y (last (presses (m_trace fin))))]
               else []))"
proof (cases "cfg_click_mode cfg")
  case False
  then show ?thesis using plain_run_marks [OF False assms(1,3)] assms(2) by simp
next
  case True
  obtain rc s' where h: "handle_click_mode (cfg_click_N cfg) (cfg_out_mode cfg)
      (cfg_do_mark cfg) started_at (alloc_ok 1) s = (rc, acts, s', m_trace fin)"
    and code: "code = (if rc = 0 then 0 else 1)"
    using main_click [OF True assms(3)] by blast
  show ?thesis
  proof (cases "rc = 0")
    case rc: True
    let ?l = "last (presses (m_trace fin))"
    have "acts = (if cfg_do_mark cfg then [draw_mark (ev_x ?l) (ev_y ?l)] else []) @
        [emit_click (cfg_out_mode cfg) (alloc_ok 1) started_at ?l]"
      using click_success [OF h [unfolded rc]] by blast
    then have "acts = [DrawMark (ev_x ?l) (ev_y ?l),
        emit_click (cfg_out_mode cfg) (alloc_ok 1) started_at ?l]"
      using assms(2) by (simp add: draw_mark_def)
    then have "marks acts = [(ev_x ?l, ev_y ?l)]"
      using marks_emit_click [of "cfg_out_mode cfg" "alloc_ok 1" started_at ?l]
        marks_append [of "[DrawMark (ev_x ?l) (ev_y ?l)]"
          "[emit_click (cfg_out_mode cfg) (alloc_ok 1) started_at ?l]"]
      by simp
    with True code rc show ?thesis by simp
  next
    case False
    then have "acts = []" using handle_click_failure [OF h] by simp
    with True code False show ?thesis by simp
  qed
qed

theorem marks_follow_presses_witness:
  "marks (fst (snd (main ex_limited ''T'' (\<lambda>n. True)
      \<lparr>clock = 0, pending = timed 1000000
         (ESC # ''[<0;1;1M'' @ ESC # ''[<32;2;2M'' @ ESC # ''[<0;2;2m'' @
          ESC # ''[<0;3;3M'' @ ESC # ''[<0;4;4M'')\<rparr>))) = [(1, 1), (3, 3)] \<and>
   map ev_type (events_of (m_trace (snd (snd (snd (main ex_limited ''T'' (\<lambda>n. True)
      \<lparr>clock = 0, pending = timed 1000000
         (ESC # ''[<0;1;1M'' @ ESC # ''[<32;2;2M'' @ ESC # ''[<0;2;2m'' @
          ESC # ''[<0;3;3M'' @ ESC # ''[<0;4;4M'')\<rparr>)))))) =
     [EVT_PRESS, EVT_MOTION, EVT_RELEASE, EVT_PRESS]"
proof -
  let ?s = "\<lparr>clock = 0, pending = timed 1000000
         (ESC # ''[<0;1;1M'' @ ESC # ''[<32;2;2M'' @ ESC # ''[<0;2;2m'' @
          ESC # ''[<0;3;3M'' @ ESC # ''[<0;4;4M'')\<rparr>"
  obtain code acts why fin where run: "main ex_limited ''T'' (\<lambda>n. True) ?s = (code, acts, why, fin)"
    and ev: "m_trace fin =
      [Event \<lparr>ev_x = 1, ev_y = 1, ev_button = 0, ev_type = EVT_PRESS,
         ev_t = \<lparr>tv_sec = 0, tv_nsec = 9000000\<rparr>\<rparr>,
       Event \<lparr>ev_x = 2, ev_y = 2, ev_button = 32, ev_type = EVT_MOTION,
         ev_t = \<lparr>tv_sec = 0, tv_nsec = 19000000\<rparr>\<rparr>,
       Event \<lparr>ev_x = 2, ev_y = 2, ev_button = 0, ev_type = EVT_RELEASE,
         ev_t = \<lparr>tv_sec = 0, tv_nsec = 28000000\<rparr>\<rparr>,
       Event \<lparr>ev_x = 3, ev_y = 3, ev_button = 0, ev_type = EVT_PRESS,
         ev_t = \<lparr>tv_sec = 0, tv_nsec = 37000000\<rparr>\<rparr>]"
    by (simp add: ex_eval main_eval click_eval decoder_eval)
  have h: "\<not> cfg_record_mode ex_limited" "cfg_do_mark ex_limited" "\<not> cfg_click_mode ex_limited"
    by (simp_all add: ex_eval)
  have "marks acts = map (\<lambda>e. (ev_x e, ev_y e)) (presses (m_trace fin))"
    using marks_follow_presses [OF h(1,2) run] h(3) by blast
  then have "marks acts = [(1, 1), (3, 3)]" unfolding ev by simp
  then show ?thesis using ev unfolding run by simp
qed

text \<open>
  C10. In record mode with a JSON document, the field \<^verbatim>\<open>duration\<close> is the time between the
  first and the last event stored, and \<open>0\<close> with fewer than two events; it is not the
  configured duration.
\<close>

theorem record_duration_is_event_span:
  assumes "\<not> cfg_click_mode cfg" and "cfg_record_mode cfg"
    and "cfg_out_mode cfg = OUT_JSON \<or> cfg_out_mode cfg = OUT_PRETTY"
    and "alloc_ok (max_events_of (cfg_record_seconds cfg))"
    and "main cfg started_at alloc_ok s = (code, acts, why, fin)"
  shows "\<exists>doc. acts = playback_events_color (m_events fin) @ [JsonDoc doc] \<and>
           jd_mode doc = ''record'' \<and>
           jd_duration doc =
             (if 1 < length (m_events fin)
              then ts_double (ev_t (last (m_events fin))) - ts_double (ev_t (hd (m_events fin)))
              else 0) \<and>
           m_events fin =
             take (max_events_of (cfg_record_seconds cfg)) (events_of (m_trace fin))"
proof -
  note r = record_run(1,3) [OF assms(1,2,4,5)]
  let ?d = "if 1 < length (m_events fin)
         then time_diff (ev_t (m_events fin ! (length (m_events fin) - 1))) (ev_t (m_events fin ! 0))
         else 0"
  have d: "?d = (if 1 < length (m_events fin)
              then ts_double (ev_t (last (m_events fin))) - ts_double (ev_t (hd (m_events fin)))
              else 0)"
    by (cases "m_events fin") (auto simp: last_conv_nth hd_conv_nth time_diff_ts)
  obtain doc where doc: "print_json_from_events (m_events fin) (cfg_out_mode cfg = OUT_PRETTY)
      ''record'' started_at ?d = JsonDoc doc" "jd_mode doc = ''record''" "jd_duration doc = ?d"
    using print_json_from_events_doc by blast
  have "acts = playback_events_color (m_events fin) @ [JsonDoc doc]"
    unfolding r(2) finish_record_json [OF assms(2,3)] doc(1) ..
  with doc(2,3) d r(1) show ?thesis by metis
qed

theorem record_duration_is_event_span_witness:
  "cfg_record_seconds ex_record = 1 \<and>
   fst (snd (main ex_record ''T'' (\<lambda>n. True)
      \<lparr>clock = 0, pending = timed 1000000 (ESC # ''[<0;5;5M'' @ ESC # ''[<0;5;5m'') @
         [(2000000000, CHR ''x'')]\<rparr>)) =
     [Playback
        [\<lparr>ev_x = 5, ev_y = 5, ev_button = 0, ev_type = EVT_PRESS,
           ev_t = \<lparr>tv_sec = 0, tv_nsec = 9000000\<rparr>\<rparr>,
         \<lparr>ev_x = 5, ev_y = 5, ev_button = 0, ev_type = EVT_RELEASE,
           ev_t = \<lparr>tv_sec = 0, tv_nsec = 18000000\<rparr>\<rparr>],
      JsonDoc \<lparr>jd_pretty = False, jd_mode = ''record'', jd_started_at = ''T'',
        jd_duration = 9 / 1000, jd_outputs = 1,
        jd_events =
          [\<lparr>je_x = 5, je_y = 5, je_button = 0, je_type = ''press'', je_dt = 0\<rparr>,
           \<lparr>je_x = 5, je_y = 5, je_button = 0, je_type = ''release'', je_dt = 9 / 1000\<rparr>]\<rparr>]"
proof -
  let ?s = "\<lparr>clock = 0, pending = timed 1000000 (ESC # ''[<0;5;5M'' @ ESC # ''[<0;5;5m'') @
         [(2000000000, CHR ''x'')]\<rparr>"
  let ?e1 = "\<lparr>ev_x = 5, ev_y = 5, ev_button = 0, ev_type = EVT_PRESS,
        ev_t = \<lparr>tv_sec = 0, tv_nsec = 9000000\<rparr>\<rparr>"
  let ?e2 = "\<lparr>ev_x = 5, ev_y = 5, ev_button = 0, ev_type = EVT_RELEASE,
        ev_t = \<lparr>tv_sec = 0, tv_nsec = 18000000\<rparr>\<rparr>"
  let ?doc = "\<lparr>jd_pretty = False, jd_mode = ''record'', jd_started_at = ''T'',
        jd_duration = 9 / 1000, jd_outputs = 1,
        jd_events =
          [\<lparr>je_x = 5, je_y = 5, je_button = 0, je_type = ''press'', je_dt = 0\<rparr>,
           \<lparr>je_x = 5, je_y = 5, je_button = 0, je_type = ''release'', je_dt = 9 / 1000\<rparr>]\<rparr>"
  obtain code acts why fin where run: "main ex_record ''T'' (\<lambda>n. True) ?s = (code, acts, why, fin)"
    and ev: "m_events fin = [?e1, ?e2]" "acts = [Playback [?e1, ?e2], JsonDoc ?doc]"
    by (simp add: ex_eval main_eval click_eval decoder_eval json_of_def type_str_def)
  have h: "\<not> cfg_click_mode ex_record" "cfg_record_mode ex_record"
      "cfg_out_mode ex_record = OUT_JSON \<or> cfg_out_mode ex_record = OUT_PRETTY"
      "(\<lambda>n. True) (max_events_of (cfg_record_seconds ex_record))"
    by (simp_all add: ex_eval)
  obtain doc where doc: "acts = playback_events_color (m_events fin) @ [JsonDoc doc]"
      "jd_duration doc =
         (if 1 < length (m_events fin)
          then ts_double (ev_t (last (m_events fin))) - ts_double (ev_t (hd (m_events fin)))
          else 0)"
    using record_duration_is_event_span [OF h run] by blast
  have "jd_duration doc = 9 / 1000" unfolding doc(2) ev(1) by (simp add: ts_double_def)
  moreover have "doc = ?doc" using doc(1) unfolding ev by (simp add: playback_events_color_def)
  ultimately show ?thesis using ev(2) unfolding run by (simp add: ex_eval)
qed

subsection \<open>Claims on the JSON document\<close>

text \<open>
  C7. The field \<^verbatim>\<open>outputs\<close> of the JSON document, compact or pretty, printed from the
  buffered events (\<^verbatim>\<open>print_json_history\<close>) or from a recording (\<^verbatim>\<open>print_json_from_events\<close>),
  is the number of entries of \<^verbatim>\<open>events\<close> whose type is \<^verbatim>\<open>press\<close>; the array has one entry for
  each event given, whatever its kind. So it is in every document that a run of \<^verbatim>\<open>main\<close>
  writes, in any mode.
\<close>

theorem json_outputs_counts_presses:
  "(\<exists>doc. print_json_history outs pretty mode started_at duration = JsonDoc doc \<and>
          jd_pretty doc = pretty \<and> length (jd_events doc) = length outs \<and>
          jd_outputs doc = press_entries doc) \<and>
   (\<exists>doc. print_json_from_events events pretty mode started_at duration = JsonDoc doc \<and>
          jd_pretty doc = pretty \<and> length (jd_events doc) = length events \<and>
          jd_outputs doc = press_entries doc) \<and>
   (main cfg started_at alloc_ok s = (code, acts, why, fin) \<longrightarrow>
      (\<forall>d\<in>set (docs acts). jd_outputs d = press_entries d))"
  using printers_outputs(1) [of outs pretty mode started_at duration]
    printers_outputs(2) [of events pretty mode started_at duration]
    main_docs [of cfg started_at alloc_ok s code acts why fin]
  by blast

theorem json_outputs_counts_presses_witness:
  "docs (fst (snd (main ex_limited ''T'' (\<lambda>n. True)
      \<lparr>clock = 0, pending = timed 1000000
         (ESC # ''[<0;1;1M'' @ ESC # ''[<32;2;2M'' @ ESC # ''[<0;2;2m'' @
          ESC # ''[<0;3;3M'' @ ESC # ''[<0;4;4M'')\<rparr>))) =
     [\<lparr>jd_pretty = False, jd_mode = ''stream'', jd_started_at = ''T'',
        jd_duration = 7 / 250, jd_outputs = 2,
        jd_events =
          [\<lparr>je_x = 1, je_y = 1, je_button = 0, je_type = ''press'', je_dt = 0\<rparr>,
           \<lparr>je_x = 2, je_y = 2, je_button = 32, je_type = ''motion'', je_dt = 1 / 100\<rparr>,
           \<lparr>je_x = 2, je_y = 2, je_button = 0, je_type = ''release'', je_dt = 9 / 1000\<rparr>,
           \<lparr>je_x = 3, je_y = 3, je_button = 0, je_type = ''press'', je_dt = 9 / 1000\<rparr>]\<rparr>]"
proof -
  let ?s = "\<lparr>clock = 0, pending = timed 1000000
         (ESC # ''[<0;1;1M'' @ ESC # ''[<32;2;2M'' @ ESC # ''[<0;2;2m'' @
          ESC # ''[<0;3;3M'' @ ESC # ''[<0;4;4M'')\<rparr>"
  let ?evs = "[\<lparr>je_x = 1, je_y = 1, je_button = 0, je_type = ''press'', je_dt = 0\<rparr>,
           \<lparr>je_x = 2, je_y = 2, je_button = 32, je_type = ''motion'', je_dt = 1 / 100\<rparr>,
           \<lparr>je_x = 2, je_y = 2, je_button = 0, je_type = ''release'', je_dt = 9 / 1000\<rparr>,
           \<lparr>je_x = 3, je_y = 3, je_button = 0, je_type = ''press'', je_dt = 9 / 1000\<rparr>]"
  obtain code acts why fin doc where run: "main ex_limited ''T'' (\<lambda>n. True) ?s = (code, acts, why, fin)"
    and ev: "docs acts = [doc]" "jd_events doc = ?evs" "jd_pretty doc = False"
      "jd_mode doc = ''stream''" "jd_started_at doc = ''T''" "jd_duration doc = 7 / 250"
    by (simp add: ex_eval main_eval click_eval decoder_eval)
  have "d \<in> set (docs acts) \<Longrightarrow> jd_outputs d = press_entries d" for d
    using json_outputs_counts_presses [THEN conjunct2, THEN conjunct2, rule_format, OF run] .
  then have "jd_outputs doc = press_entries doc" unfolding ev(1) by simp
  then have "jd_outputs doc = 2" unfolding press_entries_def ev(2) by simp
  with ev(2-) have "doc = \<lparr>jd_pretty = False, jd_mode = ''stream'', jd_started_at = ''T'',
        jd_duration = 7 / 250, jd_outputs = 2, jd_events = ?evs\<rparr>"
    by simp
  with ev(1) show ?thesis unfolding run by simp
qed

end

